theory Spec2Isabelle
  imports Complex_Main "HOL-Library.Extended_Nat"
begin

section \<open>Numbers and shared helpers\<close>

text \<open>
  The TypeScript sources compute on IEEE doubles. The credit award, the escalation score
  and the connectedness of the sponsor graph are modelled by the real numbers:
  \<open>Math.min\<close>, \<open>Math.max\<close>, \<open>Math.exp\<close> and \<open>Math.pow\<close> become \<open>min\<close>, \<open>max\<close>, \<open>exp\<close> and
  \<open>powr\<close> (or \<open>^\<close> for a natural exponent); rounding, \<open>NaN\<close> and the infinities produced by
  overflow or by a division by zero are outside that model, and where the source divides,
  the theorems below say when the divisor has to be non-zero. The union connectedness of
  the credit engine and the decay of the safety impact are modelled in double arithmetic,
  with the rounding of every operation written out (\<open>rnd\<close>, below).
\<close>

text \<open>\<open>function sigmoid(x) { return 1 / (1 + Math.exp(-x)); }\<close>\<close>

definition sigmoid :: "real \<Rightarrow> real" where
  "sigmoid x = 1 / (1 + exp (- x))"

text \<open>\<open>map.get(key) || 0\<close> on a \<open>Map<string, number>\<close>: a missing key reads as 0.\<close>

definition get_or_zero :: "(string \<rightharpoonup> real) \<Rightarrow> string \<Rightarrow> real" where
  "get_or_zero m k = (case m k of None \<Rightarrow> 0 | Some v \<Rightarrow> v)"

text \<open>The template literal \<open>`${a}->${b}`\<close>.\<close>

definition arrow_key :: "string \<Rightarrow> string \<Rightarrow> string" where
  "arrow_key a b = a @ ''->'' @ b"

section \<open>Binary64 rounding\<close>

text \<open>
  \<open>round_even q\<close> is the integer nearest to \<open>q\<close>, the even one of the two when \<open>q\<close> lies
  half-way between them.
\<close>

definition round_even :: "real \<Rightarrow> int" where
  "round_even q =
     (let n = \<lfloor>q\<rfloor>; r = q - of_int n
      in if r < 1/2 then n else if r > 1/2 then n + 1 else if even n then n else n + 1)"

text \<open>
  The exponent of the unit in the last place of a double near \<open>x\<close>: 52 binary places
  below the leading bit, and never below \<open>-1074\<close>, the exponent of the smallest
  subnormal.
\<close>

definition ulp_exponent :: "real \<Rightarrow> int" where
  "ulp_exponent x = max (\<lfloor>log 2 \<bar>x\<bar>\<rfloor> - 52) (- 1074)"

text \<open>
  \<open>rnd x\<close> is the double that an IEEE 754 binary64 operation returns for the exact
  result \<open>x\<close> (round to nearest, ties to even). Overflow to \<open>Infinity\<close> is not modelled:
  beyond the largest double the grid simply continues.
\<close>

definition rnd :: "real \<Rightarrow> real" where
  "rnd x =
     (if x = 0 then 0
      else of_int (round_even (x / 2 powr of_int (ulp_exponent x))) * 2 powr of_int (ulp_exponent x))"

subsection \<open>Nearest integers\<close>

lemma round_even_of_int [simp]: "round_even (of_int n) = n"
  by (simp add: round_even_def)

lemma round_even_cases:
  "round_even q = \<lfloor>q\<rfloor> \<or> round_even q = \<lfloor>q\<rfloor> + 1"
  by (simp add: round_even_def Let_def)

lemma round_even_ge_floor: "\<lfloor>q\<rfloor> \<le> round_even q"
  using round_even_cases [of q] by linarith

lemma round_even_le_ceiling: "round_even q \<le> \<lfloor>q\<rfloor> + 1"
  using round_even_cases [of q] by linarith

lemma round_even_error: "\<bar>of_int (round_even q) - q\<bar> \<le> 1/2"
proof -
  define n where "n = \<lfloor>q\<rfloor>"
  define r where "r = q - of_int n"
  have r: "0 \<le> r" "r < 1" unfolding r_def n_def by linarith+
  have q: "q = of_int n + r" unfolding r_def by simp
  have e: "round_even q = (if r < 1/2 then n else if r > 1/2 then n + 1
                           else if even n then n else n + 1)"
    unfolding round_even_def Let_def n_def [symmetric] r_def [symmetric] ..
  show ?thesis
  proof (cases "r < 1/2")
    case True
    with e r q show ?thesis by simp
  next
    case False
    show ?thesis
    proof (cases "r > 1/2")
      case True
      with e False r q show ?thesis by simp
    next
      case h: False
      with False have "r = 1/2" by simp
      with e q show ?thesis by (cases "even n") simp_all
    qed
  qed
qed

lemma round_even_lower: "of_int N \<le> q \<Longrightarrow> N \<le> round_even q"
  using round_even_ge_floor [of q] le_floor_iff [of N q] by linarith

lemma round_even_upper:
  assumes "q \<le> of_int N"
  shows "round_even q \<le> N"
proof (cases "q = of_int N")
  case True
  then show ?thesis by simp
next
  case False
  with assms have "q < of_int N" by simp
  then have "\<lfloor>q\<rfloor> < N" by (simp add: floor_less_iff)
  with round_even_le_ceiling [of q] show ?thesis by linarith
qed

lemma round_even_mono:
  assumes "q \<le> q'"
  shows "round_even q \<le> round_even q'"
proof (cases "\<lfloor>q\<rfloor> = \<lfloor>q'\<rfloor>")
  case True
  have "q - of_int \<lfloor>q\<rfloor> \<le> q' - of_int \<lfloor>q'\<rfloor>" using assms True by simp
  then show ?thesis
    unfolding round_even_def Let_def True by auto
next
  case False
  have "\<lfloor>q\<rfloor> \<le> \<lfloor>q'\<rfloor>" using assms by (rule floor_mono)
  with False have "\<lfloor>q\<rfloor> + 1 \<le> \<lfloor>q'\<rfloor>" by linarith
  with round_even_le_ceiling [of q] round_even_ge_floor [of q'] show ?thesis by linarith
qed

subsection \<open>Powers of two and binades\<close>

lemma p2_pos: "0 < (2::real) powr of_int k"
  by simp

lemma p2_add: "(2::real) powr of_int (a + b) = 2 powr of_int a * 2 powr of_int b"
  by (simp add: powr_add)

lemma p2_nonneg_int: "0 \<le> k \<Longrightarrow> (2::real) powr of_int k = of_int (2 ^ nat k)"
  by (simp add: powr_real_of_int)

lemma p2_mono: "a \<le> b \<Longrightarrow> (2::real) powr of_int a \<le> 2 powr of_int b"
  by simp

lemma floor_log2_eq:
  assumes "(2::real) powr of_int e \<le> x" and "x < 2 powr of_int (e + 1)"
  shows "\<lfloor>log 2 x\<rfloor> = e"
proof -
  have x: "0 < x" using assms(1) p2_pos [of e] by linarith
  have "of_int e \<le> log 2 x" using assms(1) x by (simp add: le_log_iff)
  moreover have "log 2 x < of_int e + 1" using assms(2) x by (simp add: log_less_iff add.commute)
  ultimately show ?thesis by (rule floor_unique)
qed

lemma floor_log2_bounds:
  assumes "0 < x"
  shows "(2::real) powr of_int \<lfloor>log 2 x\<rfloor> \<le> x" and "x < 2 powr of_int (\<lfloor>log 2 x\<rfloor> + 1)"
proof -
  show "(2::real) powr of_int \<lfloor>log 2 x\<rfloor> \<le> x"
    using le_log_iff [of 2 x "of_int \<lfloor>log 2 x\<rfloor>"] assms by simp
  have "log 2 x < of_int (\<lfloor>log 2 x\<rfloor> + 1)" by linarith
  then show "x < 2 powr of_int (\<lfloor>log 2 x\<rfloor> + 1)"
    using log_less_iff [of 2 x "of_int (\<lfloor>log 2 x\<rfloor> + 1)"] assms by simp
qed

lemma ulp_exponent_mono:
  assumes "0 < x" and "x \<le> y"
  shows "ulp_exponent x \<le> ulp_exponent y"
proof -
  have "log 2 x \<le> log 2 y" using assms by (simp add: log_mono)
  then have "\<lfloor>log 2 x\<rfloor> \<le> \<lfloor>log 2 y\<rfloor>" by (rule floor_mono)
  then show ?thesis using assms unfolding ulp_exponent_def by simp
qed

subsection \<open>Rounding to a double\<close>

lemma rnd_0 [simp]: "rnd 0 = 0"
  by (simp add: rnd_def)

lemma rnd_pos:
  "0 < x \<Longrightarrow> rnd x = of_int (round_even (x / 2 powr of_int (ulp_exponent x)))
                       * 2 powr of_int (ulp_exponent x)"
  by (simp add: rnd_def)


lemma ulp_exponent_binade:
  assumes "(2::real) powr of_int e \<le> x" and "x < 2 powr of_int (e + 1)"
  shows "ulp_exponent x = max (e - 52) (- 1074)"
proof -
  have "0 < x" using assms(1) p2_pos [of e] by linarith
  then have "\<bar>x\<bar> = x" by simp
  then show ?thesis unfolding ulp_exponent_def using floor_log2_eq [OF assms] by simp
qed

lemma ulp_exponent_below:
  assumes "0 < x" and "x < 2 powr of_int b"
  shows "ulp_exponent x \<le> max (b - 53) (- 1074)"
proof -
  have "log 2 x < of_int b" using assms by (simp add: log_less_iff)
  then have "\<lfloor>log 2 x\<rfloor> < b" by (simp add: floor_less_iff)
  then show ?thesis using assms(1) unfolding ulp_exponent_def by simp
qed

lemma rnd_nonneg: "0 \<le> x \<Longrightarrow> 0 \<le> rnd x"
proof (cases "x = 0")
  case True
  then show ?thesis by simp
next
  case False
  assume "0 \<le> x"
  with False have x: "0 < x" by simp
  have "of_int 0 \<le> x / 2 powr of_int (ulp_exponent x)" using x by simp
  then have "0 \<le> round_even (x / 2 powr of_int (ulp_exponent x))" by (rule round_even_lower)
  then show ?thesis unfolding rnd_pos [OF x] by simp
qed

text \<open>A positive multiple of a power of two that is no finer than the grid at that place is a double.\<close>

lemma rnd_exact:
  assumes y: "0 < y" and r: "y = of_int n * 2 powr of_int j" and j: "ulp_exponent y \<le> j"
  shows "rnd y = y"
proof -
  define k where "k = ulp_exponent y"
  have kj: "k \<le> j" using j unfolding k_def .
  have "(2::real) powr of_int j = 2 powr of_int (j - k) * 2 powr of_int k"
    using p2_add [of "j - k" k] by simp
  also have "(2::real) powr of_int (j - k) = of_int (2 ^ nat (j - k))"
    using kj by (intro p2_nonneg_int) simp
  finally have e: "(2::real) powr of_int j = of_int (2 ^ nat (j - k)) * 2 powr of_int k" .
  have "y / 2 powr of_int k = of_int n * (2 powr of_int j / 2 powr of_int k)"
    using r by simp
  also have "2 powr of_int j / 2 powr of_int k = (of_int (2 ^ nat (j - k)) :: real)"
    by (subst e) simp
  finally have q: "y / 2 powr of_int k = of_int (n * 2 ^ nat (j - k))" by simp
  have "rnd y = of_int (round_even (y / 2 powr of_int k)) * 2 powr of_int k"
    unfolding k_def by (rule rnd_pos [OF y])
  also have "round_even (y / 2 powr of_int k) = n * 2 ^ nat (j - k)"
    unfolding q by (rule round_even_of_int)
  also have "of_int (n * 2 ^ nat (j - k)) * 2 powr of_int k = y / 2 powr of_int k * 2 powr of_int k"
    unfolding q ..
  finally show ?thesis by simp
qed

lemma rnd_power_of_two: "- 1074 \<le> j \<Longrightarrow> rnd (2 powr of_int j) = 2 powr of_int j"
proof (rule rnd_exact [where n = 1 and j = j])
  assume j: "- 1074 \<le> j"
  show "0 < (2::real) powr of_int j" by simp
  show "(2::real) powr of_int j = of_int 1 * 2 powr of_int j" by simp
  have "ulp_exponent (2 powr of_int j) = max (j - 52) (- 1074)"
    by (rule ulp_exponent_binade) simp_all
  with j show "ulp_exponent (2 powr of_int j) \<le> j" by simp
qed

lemma rnd_1 [simp]: "rnd 1 = 1"
  using rnd_power_of_two [of 0] by simp

lemma rnd_dyadic:
  assumes m: "0 < m" "m < 2 ^ 53" and j: "j \<le> 1022"
  shows "rnd (of_int m / 2 ^ j) = of_int m / 2 ^ j"
proof (rule rnd_exact [where n = m and j = "- int j"])
  have p: "(2::real) powr of_int (- int j) = 1 / 2 ^ j"
    by (simp add: powr_minus powr_realpow inverse_eq_divide)
  show "0 < real_of_int m / 2 ^ j" using m by simp
  show "real_of_int m / 2 ^ j = of_int m * 2 powr of_int (- int j)" unfolding p by simp
  have "real_of_int m < 2 ^ 53" using m(2) by (metis of_int_less_iff of_int_numeral of_int_power)
  then have "real_of_int m / 2 ^ j < 2 powr of_int 53 * 2 powr of_int (- int j)"
    unfolding p by (simp add: divide_strict_right_mono)
  also have "\<dots> = 2 powr of_int (53 - int j)" using p2_add [of 53 "- int j"] by simp
  finally have "ulp_exponent (real_of_int m / 2 ^ j) \<le> max (53 - int j - 53) (- 1074)"
    using \<open>0 < real_of_int m / 2 ^ j\<close> by (intro ulp_exponent_below)
  with j show "ulp_exponent (real_of_int m / 2 ^ j) \<le> - int j" by simp
qed

lemma rnd_mono_pos:
  assumes x: "0 < x" and xy: "x \<le> y"
  shows "rnd x \<le> rnd y"
proof -
  have y: "0 < y" using x xy by simp
  let ?kx = "ulp_exponent x" and ?ky = "ulp_exponent y"
  have k: "?kx \<le> ?ky" by (rule ulp_exponent_mono [OF x xy])
  show ?thesis
  proof (cases "?kx = ?ky")
    case True
    have "x / 2 powr of_int ?ky \<le> y / 2 powr of_int ?ky"
      using xy by (simp add: divide_right_mono)
    then have "round_even (x / 2 powr of_int ?ky) \<le> round_even (y / 2 powr of_int ?ky)"
      by (rule round_even_mono)
    then have "real_of_int (round_even (x / 2 powr of_int ?ky)) * 2 powr of_int ?ky
                 \<le> real_of_int (round_even (y / 2 powr of_int ?ky)) * 2 powr of_int ?ky"
      by (simp add: mult_right_mono)
    then show ?thesis unfolding rnd_pos [OF x] rnd_pos [OF y] True .
  next
    case False
    with k have lt: "?kx < ?ky" by simp
    define ex where "ex = \<lfloor>log 2 x\<rfloor>"
    define ey where "ey = \<lfloor>log 2 y\<rfloor>"
    have kx: "?kx = max (ex - 52) (- 1074)" and ky: "?ky = max (ey - 52) (- 1074)"
      using x y unfolding ulp_exponent_def ex_def ey_def by simp_all
    from lt kx ky have kye: "?ky = ey - 52" and exy: "ex + 1 \<le> ey" and kxe: "?kx \<le> ey" by linarith+
    let ?B = "(2::real) powr of_int ey"
    have By: "?B \<le> y" unfolding ey_def by (rule floor_log2_bounds(1) [OF y])
    have "x < 2 powr of_int (ex + 1)" unfolding ex_def by (rule floor_log2_bounds(2) [OF x])
    also have "\<dots> \<le> ?B" using exy by (rule p2_mono)
    finally have xB: "x \<le> ?B" by simp
    have Bx: "?B = of_int (2 ^ nat (ey - ?kx)) * 2 powr of_int ?kx"
      using p2_add [of "ey - ?kx" ?kx] p2_nonneg_int [of "ey - ?kx"] kxe by simp
    have "x / 2 powr of_int ?kx \<le> ?B / 2 powr of_int ?kx"
      using xB by (simp add: divide_right_mono)
    also have "\<dots> = of_int (2 ^ nat (ey - ?kx))" by (subst Bx) simp
    finally have "round_even (x / 2 powr of_int ?kx) \<le> 2 ^ nat (ey - ?kx)"
      by (rule round_even_upper)
    then have "real_of_int (round_even (x / 2 powr of_int ?kx)) \<le> of_int (2 ^ nat (ey - ?kx))"
      by (simp only: of_int_le_iff)
    then have "rnd x \<le> of_int (2 ^ nat (ey - ?kx)) * 2 powr of_int ?kx"
      unfolding rnd_pos [OF x] by (rule mult_right_mono) simp
    then have rx: "rnd x \<le> ?B" using Bx by simp
    have By2: "?B = of_int (2 ^ 52) * 2 powr of_int ?ky"
      using p2_add [of 52 ?ky] p2_nonneg_int [of 52] kye by simp
    have "of_int (2 ^ 52) = ?B / 2 powr of_int ?ky" by (subst By2) simp
    also have "\<dots> \<le> y / 2 powr of_int ?ky" using By by (simp add: divide_right_mono)
    finally have "2 ^ 52 \<le> round_even (y / 2 powr of_int ?ky)" by (rule round_even_lower)
    then have "real_of_int (2 ^ 52) \<le> of_int (round_even (y / 2 powr of_int ?ky))"
      by (simp only: of_int_le_iff)
    then have "of_int (2 ^ 52) * 2 powr of_int ?ky \<le> rnd y"
      unfolding rnd_pos [OF y] by (rule mult_right_mono) simp
    then have "?B \<le> rnd y" using By2 by simp
    with rx show ?thesis by linarith
  qed
qed

lemma rnd_mono: "0 \<le> x \<Longrightarrow> x \<le> y \<Longrightarrow> rnd x \<le> rnd y"
  by (cases "x = 0") (simp_all add: rnd_nonneg rnd_mono_pos)

lemma rnd_unit_interval: "0 \<le> x \<Longrightarrow> x \<le> 1 \<Longrightarrow> 0 \<le> rnd x \<and> rnd x \<le> 1"
  using rnd_nonneg [of x] rnd_mono [of x 1] by simp

lemma rnd_idem:
  assumes "0 \<le> x"
  shows "rnd (rnd x) = rnd x"
proof (cases "rnd x = 0")
  case True
  then show ?thesis by simp
next
  case False
  with rnd_nonneg [OF assms] have y: "0 < rnd x" by simp
  from False have "x \<noteq> 0" by auto
  with assms have x: "0 < x" by simp
  define k where "k = ulp_exponent x"
  define e where "e = \<lfloor>log 2 x\<rfloor>"
  define n where "n = round_even (x / 2 powr of_int k)"
  define t where "t = max (e + 1) k"
  have k: "k = max (e - 52) (- 1074)" using x unfolding k_def e_def ulp_exponent_def by simp
  have yn: "rnd x = of_int n * 2 powr of_int k" unfolding n_def k_def by (rule rnd_pos [OF x])
  have tk: "k \<le> t" unfolding t_def by simp
  have T: "(2::real) powr of_int t = of_int (2 ^ nat (t - k)) * 2 powr of_int k"
    using p2_add [of "t - k" k] p2_nonneg_int [of "t - k"] tk by simp
  have "x < 2 powr of_int (e + 1)" unfolding e_def by (rule floor_log2_bounds(2) [OF x])
  also have "\<dots> \<le> 2 powr of_int t" unfolding t_def by (rule p2_mono) simp
  finally have "x / 2 powr of_int k \<le> 2 powr of_int t / 2 powr of_int k"
    by (simp add: divide_right_mono)
  also have "\<dots> = of_int (2 ^ nat (t - k))" by (subst T) simp
  finally have "n \<le> 2 ^ nat (t - k)" unfolding n_def by (rule round_even_upper)
  then have "real_of_int n \<le> of_int (2 ^ nat (t - k))" by (simp only: of_int_le_iff)
  then have "rnd x \<le> of_int (2 ^ nat (t - k)) * 2 powr of_int k"
    unfolding yn by (rule mult_right_mono) simp
  then have yT: "rnd x \<le> 2 powr of_int t" using T by simp
  show ?thesis
  proof (cases "rnd x = 2 powr of_int t")
    case True
    have "- 1074 \<le> t" using tk k by simp
    then show ?thesis unfolding True by (rule rnd_power_of_two)
  next
    case ne: False
    with yT have "rnd x < 2 powr of_int t" by simp
    from ulp_exponent_below [OF y this] have "ulp_exponent (rnd x) \<le> max (t - 53) (- 1074)" .
    also have "\<dots> \<le> k" unfolding t_def using k by simp
    finally show ?thesis using y yn by (intro rnd_exact [where n = n and j = k])
  qed
qed

lemma rnd_error_unit:
  assumes "0 \<le> x" and "x \<le> 1"
  shows "\<bar>rnd x - x\<bar> \<le> 2 powr of_int (- 54)"
proof (cases "x = 0 \<or> x = 1")
  case True
  then show ?thesis by auto
next
  case False
  with assms have x: "0 < x" "x < 1" by simp_all
  define k where "k = ulp_exponent x"
  have "x < 2 powr of_int 0" using x by simp
  from ulp_exponent_below [OF x(1) this] have k: "k \<le> - 53" unfolding k_def by simp
  have "rnd x - x = (of_int (round_even (x / 2 powr of_int k)) - x / 2 powr of_int k) * 2 powr of_int k"
    unfolding rnd_pos [OF x(1)] k_def by (simp add: algebra_simps)
  then have "\<bar>rnd x - x\<bar> = \<bar>of_int (round_even (x / 2 powr of_int k)) - x / 2 powr of_int k\<bar>
                               * 2 powr of_int k"
    by (simp add: abs_mult)
  also have "\<dots> \<le> 1/2 * 2 powr of_int k"
    by (rule mult_right_mono [OF round_even_error]) simp
  also have "\<dots> \<le> 1/2 * 2 powr of_int (- 53)"
    using p2_mono [OF k] by simp
  also have "\<dots> = 2 powr of_int (- 54)"
    using p2_add [of "- 1" "- 53"] by (simp add: powr_minus)
  finally show ?thesis .
qed


text \<open>The double for a value whose binade is known.\<close>

lemma rnd_binade:
  assumes "(2::real) powr of_int e \<le> x" and "x < 2 powr of_int (e + 1)" and "- 1022 \<le> e"
  shows "rnd x = of_int (round_even (x / 2 powr of_int (e - 52))) * 2 powr of_int (e - 52)"
proof -
  have x: "0 < x" using assms(1) p2_pos [of e] by linarith
  have "ulp_exponent x = e - 52"
    using ulp_exponent_binade [OF assms(1,2)] assms(3) by simp
  then show ?thesis unfolding rnd_pos [OF x] by simp
qed


subsection \<open>Doubles in the unit interval\<close>

lemma p2_neg: "(2::real) powr of_int (- int j) = 1 / 2 ^ j"
  by (simp add: powr_minus powr_realpow inverse_eq_divide)

text \<open>The double for a value in the binade \<open>[2\<^sup>-\<^sup>j, 2\<^sup>1\<^sup>-\<^sup>j)\<close>, with natural powers only.\<close>

lemma rnd_binade_neg:
  assumes "1 / 2 ^ j \<le> x" and "x < 2 / 2 ^ j" and "j \<le> 1022"
  shows "rnd x = of_int (round_even (x * 2 ^ (j + 52))) / 2 ^ (j + 52)"
proof -
  have a: "(2::real) powr of_int (- int j) \<le> x" unfolding p2_neg by (rule assms(1))
  have "(2::real) powr of_int (- int j + 1) = 2 powr of_int (- int j) * 2 powr of_int 1"
    by (rule p2_add)
  also have "\<dots> = 2 / 2 ^ j" unfolding p2_neg by simp
  finally have "(2::real) powr of_int (- int j + 1) = 2 / 2 ^ j" .
  then have b: "x < 2 powr of_int (- int j + 1)" using assms(2) by simp
  have c: "- 1022 \<le> - int j" using assms(3) by simp
  have k: "- int j - 52 = - int (j + 52)" by simp
  show ?thesis
    unfolding rnd_binade [OF a b c] k p2_neg by simp
qed

lemma rnd_values:
  "rnd (1/2) = 1/2" "rnd (3/4) = 3/4" "rnd (3/8) = 3/8" "rnd (5/8) = 5/8"
  using rnd_dyadic [of 1 1] rnd_dyadic [of 3 2] rnd_dyadic [of 3 3] rnd_dyadic [of 5 3]
  by simp_all

text \<open>The double that the literal \<open>0.1\<close> denotes.\<close>

lemma rnd_tenth: "rnd (1/10) = 3602879701896397 / 36028797018963968"
proof -
  have "rnd (1/10) = of_int (round_even (1/10 * 2 ^ (4 + 52))) / 2 ^ (4 + 52)"
    by (rule rnd_binade_neg) simp_all
  also have "round_even (1/10 * 2 ^ (4 + 52)) = 7205759403792794"
    by (simp add: round_even_def Let_def)
  finally show ?thesis by simp
qed

lemma rnd_one_minus_tenth:
  "rnd (1 - 3602879701896397 / 36028797018963968) = 8106479329266893 / 9007199254740992"
proof -
  let ?x = "1 - 3602879701896397 / 36028797018963968 :: real"
  have "rnd ?x = of_int (round_even (?x * 2 ^ (1 + 52))) / 2 ^ (1 + 52)"
    by (rule rnd_binade_neg) simp_all
  also have "round_even (?x * 2 ^ (1 + 52)) = 8106479329266893"
    by (simp add: round_even_def Let_def)
  finally show ?thesis by simp
qed

lemma rnd_back_from_tenth:
  "rnd (1 - 8106479329266893 / 9007199254740992) = 900719925474099 / 9007199254740992"
  using rnd_dyadic [of 900719925474099 53] by simp

section \<open>Credit flow (social/credit_system/math/credit_flow.ts)\<close>

record CreditParameters =
  C_max :: real
  I_max_per_epoch :: real
  S_max_per_epoch :: real
  beta0 :: real
  beta1 :: real
  theta :: real
  c_local :: real
  c_xbranch :: real
  c_global :: real
  H_c_days :: real
  delta :: real

datatype action_type = mediation | support_response | replication | other

record EarnableAction =
  type :: action_type
  base_award :: real
  description :: string

record EarnEvent =
  helper :: string
  action :: EarnableAction
  subject_set :: "string list"
  evidence_confidence :: real
  diversity_factor :: real
  proximity_score :: real
  branch_avg_credits :: real
  timestamp :: real
  witnesses :: "string list"

datatype spend_type = local | xbranch | global

record BranchApproval =
  approval_branch_id :: string
  voters :: "string list"
  votes :: "real list"
  participation_rate :: real
  path_diversity_score :: real
  trimmed_mean :: real
  approved :: bool

record SpendEvent =
  requester :: string
  spend_type :: spend_type
  amount :: real
  purpose :: string
  branch_approval :: BranchApproval
  spend_timestamp :: real

record CreditBalance =
  human :: string
  balance :: real
  last_updated_epoch :: real
  earn_history :: "EarnEvent list"
  spend_history :: "SpendEvent list"

definition calculateCreditAward :: "EarnEvent \<Rightarrow> CreditParameters \<Rightarrow> real" where
  "calculateCreditAward event params =
     (let confidence = max 0 (min 1 (evidence_confidence event));
          diversity = max 0 (min 1 (diversity_factor event));
          proximity_factor = beta0 params + beta1 params * max 0 (min 1 (proximity_score event));
          scarcity_input = theta params - (branch_avg_credits event / C_max params);
          scarcity_bonus = sigmoid scarcity_input;
          award = base_award (action event) * confidence * diversity * proximity_factor * scarcity_bonus
      in max 0 award)"

text \<open>
  \<open>Math.pow(params.delta, days_elapsed / params.H_c_days)\<close> is \<open>powr\<close>, which agrees with
  \<open>Math.pow\<close> for a positive base.
\<close>

definition applyCreditDecay :: "CreditBalance \<Rightarrow> real \<Rightarrow> real \<Rightarrow> CreditParameters \<Rightarrow> real" where
  "applyCreditDecay bal current_epoch epoch_duration_hours params =
     (let epochs_elapsed = current_epoch - last_updated_epoch bal;
          hours_elapsed = epochs_elapsed * epoch_duration_hours;
          days_elapsed = hours_elapsed / 24;
          decay_multiplier = delta params powr (days_elapsed / H_c_days params);
          decayed_balance = balance bal * decay_multiplier
      in max 0 (min (C_max params) decayed_balance))"

text \<open>
  The credit engine's union connectedness \<open>1 - \<Prod>(1 - C(h,s))\<close>, in the double arithmetic
  of the source: every subtraction and every multiplication returns the double nearest
  to its exact result. The \<open>for\<close> loop over the subject set is the fold; \<open>product\<close> is its
  accumulator. \<open>Math.max\<close> and \<open>Math.min\<close> select one of their arguments and do not round.
\<close>

definition calculateUnionConnectedness_credit ::
  "string \<Rightarrow> string list \<Rightarrow> (string \<rightharpoonup> real) \<Rightarrow> real" where
  "calculateUnionConnectedness_credit h subjects pairwise_connectedness =
     (if length subjects = 0 then 0
      else
        let product = foldl (\<lambda>product subject.
                rnd (product * rnd (1 - max 0 (min 1
                  (get_or_zero pairwise_connectedness (arrow_key h subject))))))
              1 subjects
        in max 0 (min 1 (rnd (1 - product))))"

text \<open>The result \<open>{ valid: boolean; reason?: string }\<close>: \<open>None\<close> is valid, \<open>Some reason\<close> a refusal.\<close>

definition validateEarnEvent :: "EarnEvent \<Rightarrow> CreditParameters \<Rightarrow> string option" where
  "validateEarnEvent event params =
     (if evidence_confidence event \<le> 0 then Some ''Evidence confidence must be positive''
      else if diversity_factor event \<le> 0 then Some ''Diversity factor must be positive''
      else if length (witnesses event) = 0 then Some ''At least one witness required''
      else if length (subject_set event) = 0 then Some ''Subject set cannot be empty''
      else if helper event \<in> set (subject_set event)
        then Some ''Helper cannot earn credits for helping themselves''
      else None)"

definition valid :: "string option \<Rightarrow> bool" where
  "valid validation = (validation = None)"

definition updateCreditBalance ::
  "CreditBalance \<Rightarrow> EarnEvent list \<Rightarrow> SpendEvent list \<Rightarrow> real \<Rightarrow> real \<Rightarrow> CreditParameters
     \<Rightarrow> CreditBalance" where
  "updateCreditBalance bal earn_events spend_events current_epoch epoch_duration_hours params =
     (let decayed_balance = applyCreditDecay bal current_epoch epoch_duration_hours params;
          total_earnings = foldl (\<lambda>sum event.
              let validation = validateEarnEvent event params
              in if \<not> valid validation then sum
                 else sum + calculateCreditAward event params) 0 earn_events;
          total_spends = foldl (\<lambda>sum event. sum + amount event) 0 spend_events;
          new_balance = max 0 (min (C_max params) (decayed_balance + total_earnings - total_spends))
      in bal\<lparr> balance := new_balance,
              last_updated_epoch := current_epoch,
              earn_history := earn_history bal @ earn_events,
              spend_history := spend_history bal @ spend_events \<rparr>)"

definition getDefaultCreditParameters :: CreditParameters where
  "getDefaultCreditParameters =
     \<lparr> C_max = 100, I_max_per_epoch = 0, S_max_per_epoch = 0,
       beta0 = 0.6, beta1 = 0.4, theta = 0.5,
       c_local = 2, c_xbranch = 5, c_global = 10,
       H_c_days = 180, delta = 0.5 \<rparr>"

section \<open>Properties of the credit flow\<close>

lemma sigmoid_pos: "0 < sigmoid x"
  by (simp add: sigmoid_def add_pos_pos)

text \<open>One factor \<open>1 - clamp(C(h,s))\<close> of the product, as the double the loop computes.\<close>

definition factor :: "(string \<Rightarrow> real) \<Rightarrow> string \<Rightarrow> real" where
  "factor f s = rnd (1 - max 0 (min 1 (f s)))"

lemma factor_bounds: "0 \<le> factor f s" "factor f s \<le> 1" "rnd (factor f s) = factor f s"
proof -
  have c: "0 \<le> 1 - max 0 (min 1 (f s))" "1 - max 0 (min 1 (f s)) \<le> 1" by auto
  from rnd_unit_interval [OF c] show "0 \<le> factor f s" "factor f s \<le> 1"
    unfolding factor_def by simp_all
  show "rnd (factor f s) = factor f s" unfolding factor_def by (rule rnd_idem [OF c(1)])
qed

lemma product_step:
  assumes "0 \<le> acc" and "acc \<le> 1" and "rnd acc = acc"
  shows "0 \<le> rnd (acc * factor f s)" and "rnd (acc * factor f s) \<le> acc"
    and "rnd (acc * factor f s) \<le> factor f s" and "rnd (acc * factor f s) \<le> 1"
    and "rnd (rnd (acc * factor f s)) = rnd (acc * factor f s)"
proof -
  note t = factor_bounds [of f s]
  have p0: "0 \<le> acc * factor f s" using assms(1) t(1) by simp
  have pa: "acc * factor f s \<le> acc" using assms(1) t(2) by (simp add: mult_left_le)
  have pt: "acc * factor f s \<le> factor f s"
    using mult_right_mono [OF assms(2) t(1)] by simp
  show "0 \<le> rnd (acc * factor f s)" by (rule rnd_nonneg [OF p0])
  show a: "rnd (acc * factor f s) \<le> acc" using rnd_mono [OF p0 pa] assms(3) by simp
  show "rnd (acc * factor f s) \<le> factor f s" using rnd_mono [OF p0 pt] t(3) by simp
  show "rnd (acc * factor f s) \<le> 1" using a assms(2) by linarith
  show "rnd (rnd (acc * factor f s)) = rnd (acc * factor f s)" by (rule rnd_idem [OF p0])
qed

lemma product_bounds:
  "0 \<le> acc \<Longrightarrow> acc \<le> 1 \<Longrightarrow> rnd acc = acc \<Longrightarrow>
   0 \<le> foldl (\<lambda>product subject. rnd (product * factor f subject)) acc xs
   \<and> foldl (\<lambda>product subject. rnd (product * factor f subject)) acc xs \<le> acc"
proof (induction xs arbitrary: acc)
  case Nil
  then show ?case by simp
next
  case (Cons x xs)
  note st = product_step [OF Cons.prems, of f x]
  from Cons.IH [OF st(1) st(4) st(5)] st(2) show ?case by auto
qed

lemma product_le_factor:
  "s \<in> set xs \<Longrightarrow> 0 \<le> acc \<Longrightarrow> acc \<le> 1 \<Longrightarrow> rnd acc = acc \<Longrightarrow>
   foldl (\<lambda>product subject. rnd (product * factor f subject)) acc xs \<le> factor f s"
proof (induction xs arbitrary: acc)
  case Nil
  then show ?case by simp
next
  case (Cons x xs)
  note st = product_step [OF Cons.prems(2,3,4), of f x]
  show ?case
  proof (cases "s = x")
    case True
    from product_bounds [OF st(1) st(4) st(5), of f xs] st(3) True show ?thesis by auto
  next
    case False
    with Cons.prems(1) have "s \<in> set xs" by simp
    from Cons.IH [OF this st(1) st(4) st(5)] show ?thesis by simp
  qed
qed

lemma union_credit_unfold:
  "subjects \<noteq> [] \<Longrightarrow>
   calculateUnionConnectedness_credit h subjects m =
     max 0 (min 1 (rnd (1 - foldl (\<lambda>product subject.
        rnd (product * factor (\<lambda>s. get_or_zero m (arrow_key h s)) subject)) 1 subjects)))"
  by (simp add: calculateUnionConnectedness_credit_def factor_def Let_def)

lemma union_credit_single:
  "calculateUnionConnectedness_credit h [s] m
     = rnd (1 - factor (\<lambda>s. get_or_zero m (arrow_key h s)) s)"
proof -
  let ?t = "factor (\<lambda>s. get_or_zero m (arrow_key h s)) s"
  note t = factor_bounds [of "\<lambda>s. get_or_zero m (arrow_key h s)" s]
  have "0 \<le> 1 - ?t" "1 - ?t \<le> 1" using t by simp_all
  from rnd_unit_interval [OF this] have "max 0 (min 1 (rnd (1 - ?t))) = rnd (1 - ?t)" by simp
  then show ?thesis by (simp add: union_credit_unfold t(3))
qed

text \<open>
  Claim C10, as the code has it. The probabilistic-OR union connectedness of the credit
  engine lies in \<open>[0,1]\<close> and is 0 for the empty subject set. For every subject of the
  set it is at least the union connectedness of that subject alone, and at least the
  clamped pairwise connectedness of that subject less the rounding error \<open>2\<^sup>-\<^sup>5\<^sup>3\<close> of
  the two subtractions.
\<close>

theorem union_connectedness_credit_bounds:
  "0 \<le> calculateUnionConnectedness_credit h subjects m
   \<and> calculateUnionConnectedness_credit h subjects m \<le> 1
   \<and> calculateUnionConnectedness_credit h [] m = 0
   \<and> (\<forall>s \<in> set subjects.
         calculateUnionConnectedness_credit h [s] m
           \<le> calculateUnionConnectedness_credit h subjects m
         \<and> max 0 (min 1 (get_or_zero m (arrow_key h s))) - 1 / 2 ^ 53
           \<le> calculateUnionConnectedness_credit h subjects m)"
proof -
  let ?f = "\<lambda>s. get_or_zero m (arrow_key h s)"
  let ?P = "foldl (\<lambda>product subject. rnd (product * factor ?f subject)) 1 subjects"
  have b0: "0 \<le> calculateUnionConnectedness_credit h subjects m"
    by (simp add: calculateUnionConnectedness_credit_def Let_def)
  have b1: "calculateUnionConnectedness_credit h subjects m \<le> 1"
    by (simp add: calculateUnionConnectedness_credit_def Let_def)
  have e: "calculateUnionConnectedness_credit h [] m = 0"
    by (simp add: calculateUnionConnectedness_credit_def)
  have lower: "calculateUnionConnectedness_credit h [s] m
                 \<le> calculateUnionConnectedness_credit h subjects m
               \<and> max 0 (min 1 (?f s)) - 1 / 2 ^ 53
                 \<le> calculateUnionConnectedness_credit h subjects m"
    if s: "s \<in> set subjects" for s
  proof -
    let ?c = "max 0 (min 1 (?f s))"
    from s have ne: "subjects \<noteq> []" by auto
    note t = factor_bounds [of ?f s]
    have P: "0 \<le> ?P" "?P \<le> 1" using product_bounds [of 1 ?f subjects] by simp_all
    have Pt: "?P \<le> factor ?f s" using product_le_factor [OF s, of 1 ?f] by simp
    have u0: "0 \<le> 1 - factor ?f s" using t(2) by simp
    have "rnd (1 - factor ?f s) \<le> rnd (1 - ?P)" using Pt by (intro rnd_mono [OF u0]) simp
    moreover have "0 \<le> 1 - ?P" "1 - ?P \<le> 1" using P by simp_all
    from rnd_unit_interval [OF this] have "max 0 (min 1 (rnd (1 - ?P))) = rnd (1 - ?P)" by simp
    ultimately have single: "calculateUnionConnectedness_credit h [s] m
                 \<le> calculateUnionConnectedness_credit h subjects m"
      unfolding union_credit_single union_credit_unfold [OF ne] by simp
    have c: "0 \<le> 1 - ?c" "1 - ?c \<le> 1" by auto
    have e1: "\<bar>factor ?f s - (1 - ?c)\<bar> \<le> 2 powr of_int (- 54)"
      unfolding factor_def by (rule rnd_error_unit [OF c])
    have e2: "\<bar>rnd (1 - factor ?f s) - (1 - factor ?f s)\<bar> \<le> 2 powr of_int (- 54)"
      using t by (intro rnd_error_unit) simp_all
    have "(2::real) powr of_int (- 54) + 2 powr of_int (- 54) = 1 / 2 ^ 53"
      using p2_neg [of 54] by simp
    with e1 e2 have "?c - 1 / 2 ^ 53 \<le> rnd (1 - factor ?f s)" by linarith
    with single show ?thesis unfolding union_credit_single by linarith
  qed
  from b0 b1 e lower show ?thesis by blast
qed

text \<open>
  In doubles \<open>1 - (1 - 0.1)\<close> is \<open>0.09999999999999998\<close>: for one subject of pairwise
  connectedness \<open>0.1\<close> the union connectedness is below that value.
\<close>

theorem union_connectedness_credit_rounding_counterexample:
  "calculateUnionConnectedness_credit ''h'' [''s''] [''h->s'' \<mapsto> rnd (1/10)]
     = 900719925474099 / 9007199254740992
   \<and> max 0 (min 1 (get_or_zero [''h->s'' \<mapsto> rnd (1/10)] (arrow_key ''h'' ''s'')))
     = 3602879701896397 / 36028797018963968
   \<and> calculateUnionConnectedness_credit ''h'' [''s''] [''h->s'' \<mapsto> rnd (1/10)]
     < max 0 (min 1 (get_or_zero [''h->s'' \<mapsto> rnd (1/10)] (arrow_key ''h'' ''s'')))"
proof -
  have g: "get_or_zero [''h->s'' \<mapsto> rnd (1/10)] (arrow_key ''h'' ''s'')
             = 3602879701896397 / 36028797018963968"
    by (simp add: get_or_zero_def arrow_key_def rnd_tenth)
  have c: "max 0 (min 1 (get_or_zero [''h->s'' \<mapsto> rnd (1/10)] (arrow_key ''h'' ''s'')))
             = 3602879701896397 / 36028797018963968"
    unfolding g by simp
  have u: "calculateUnionConnectedness_credit ''h'' [''s''] [''h->s'' \<mapsto> rnd (1/10)]
             = 900719925474099 / 9007199254740992"
    unfolding union_credit_single factor_def c rnd_one_minus_tenth rnd_back_from_tenth ..
  show ?thesis unfolding u c by simp
qed

theorem union_connectedness_credit_bounds_witness:
  "0 \<le> calculateUnionConnectedness_credit ''h'' [''a'', ''b''] [''h->a'' \<mapsto> 1/2, ''h->b'' \<mapsto> 1/4]
   \<and> calculateUnionConnectedness_credit ''h'' [''a'', ''b''] [''h->a'' \<mapsto> 1/2, ''h->b'' \<mapsto> 1/4] = 5/8
   \<and> calculateUnionConnectedness_credit ''h'' [''a''] [''h->a'' \<mapsto> 1/2, ''h->b'' \<mapsto> 1/4] = 1/2
   \<and> calculateUnionConnectedness_credit ''h'' [''a''] [''h->a'' \<mapsto> 1/2, ''h->b'' \<mapsto> 1/4]
        \<le> calculateUnionConnectedness_credit ''h'' [''a'', ''b''] [''h->a'' \<mapsto> 1/2, ''h->b'' \<mapsto> 1/4]
   \<and> max 0 (min 1 (get_or_zero [''h->a'' \<mapsto> 1/2, ''h->b'' \<mapsto> 1/4] (arrow_key ''h'' ''a''))) - 1 / 2 ^ 53
        \<le> calculateUnionConnectedness_credit ''h'' [''a'', ''b''] [''h->a'' \<mapsto> 1/2, ''h->b'' \<mapsto> 1/4]"
proof -
  have v: "calculateUnionConnectedness_credit ''h'' [''a'', ''b''] [''h->a'' \<mapsto> 1/2, ''h->b'' \<mapsto> 1/4] = 5/8"
    by (simp add: calculateUnionConnectedness_credit_def get_or_zero_def arrow_key_def rnd_values)
  have w: "calculateUnionConnectedness_credit ''h'' [''a''] [''h->a'' \<mapsto> 1/2, ''h->b'' \<mapsto> 1/4] = 1/2"
    by (simp add: calculateUnionConnectedness_credit_def get_or_zero_def arrow_key_def rnd_values)
  have a: "''a'' \<in> set [''a'', ''b'']" by simp
  from union_connectedness_credit_bounds
          [of "''h''" "[''a'', ''b'']" "[''h->a'' \<mapsto> 1/2, ''h->b'' \<mapsto> 1/4]"] a v w
  show ?thesis by blast
qed

lemma calculateCreditAward_unfold:
  "calculateCreditAward event params =
     max 0 (base_award (action event) * max 0 (min 1 (evidence_confidence event))
            * max 0 (min 1 (diversity_factor event))
            * (beta0 params + beta1 params * max 0 (min 1 (proximity_score event)))
            * sigmoid (theta params - branch_avg_credits event / C_max params))"
  unfolding calculateCreditAward_def Let_def ..

text \<open>
  Claim C7. The credit award is 0 when the evidence confidence or the diversity factor
  is 0, and it is monotone non-decreasing in the proximity score when \<open>\<beta>\<^sub>1\<close> is
  non-negative. For the monotonicity the base award or \<open>\<beta>\<^sub>0\<close> is non-negative, as the
  interfaces document them (\<open>base_award: number; // w_a > 0\<close> and
  \<open>beta0: number; // base earn multiplier (e.g., 0.6)\<close>); \<open>C_max\<close> is non-zero, so that
  the division \<open>branch_avg_credits / C_max\<close> is the one the source computes.
\<close>

theorem calculateCreditAward_zero_and_monotone:
  assumes "C_max params \<noteq> 0"
  shows "(evidence_confidence event = 0 \<or> diversity_factor event = 0
            \<longrightarrow> calculateCreditAward event params = 0)
       \<and> (0 \<le> beta1 params \<and> (0 \<le> base_award (action event) \<or> 0 \<le> beta0 params) \<and> p \<le> q
            \<longrightarrow> calculateCreditAward (event\<lparr>proximity_score := p\<rparr>) params
                \<le> calculateCreditAward (event\<lparr>proximity_score := q\<rparr>) params)"
proof -
  let ?w = "base_award (action event)"
  let ?k = "max 0 (min 1 (evidence_confidence event))"
  let ?d = "max 0 (min 1 (diversity_factor event))"
  let ?s = "sigmoid (theta params - branch_avg_credits event / C_max params)"
  let ?pf = "\<lambda>x. beta0 params + beta1 params * max 0 (min 1 x)"
  have zero: "calculateCreditAward event params = 0"
    if "evidence_confidence event = 0 \<or> diversity_factor event = 0"
  proof -
    from that have "?k = 0 \<or> ?d = 0" by auto
    then have e: "?w * ?k * ?d * ?pf (proximity_score event) * ?s = 0" by auto
    show ?thesis unfolding calculateCreditAward_unfold e by simp
  qed
  have ep: "calculateCreditAward (event\<lparr>proximity_score := x\<rparr>) params
              = max 0 (?w * ?k * ?d * ?pf x * ?s)" for x
    by (simp add: calculateCreditAward_unfold)
  have s: "0 \<le> ?s"
    using sigmoid_pos [of "theta params - branch_avg_credits event / C_max params"] by simp
  have k: "0 \<le> ?k" and d: "0 \<le> ?d" by simp_all
  have mono: "calculateCreditAward (event\<lparr>proximity_score := p\<rparr>) params
                \<le> calculateCreditAward (event\<lparr>proximity_score := q\<rparr>) params"
    if b: "0 \<le> beta1 params" and w: "0 \<le> ?w \<or> 0 \<le> beta0 params" and pq: "p \<le> q"
  proof (cases "0 \<le> ?w")
    case True
    have a: "0 \<le> ?w * ?k * ?d" using True k d by (intro mult_nonneg_nonneg)
    have "max 0 (min 1 p) \<le> max 0 (min 1 q)" using pq by auto
    then have "beta1 params * max 0 (min 1 p) \<le> beta1 params * max 0 (min 1 q)"
      using b by (rule mult_left_mono)
    then have "?pf p \<le> ?pf q" by simp
    then have "?w * ?k * ?d * ?pf p \<le> ?w * ?k * ?d * ?pf q"
      using a by (rule mult_left_mono)
    then have "?w * ?k * ?d * ?pf p * ?s \<le> ?w * ?k * ?d * ?pf q * ?s"
      using s by (rule mult_right_mono)
    then have "max 0 (?w * ?k * ?d * ?pf p * ?s) \<le> max 0 (?w * ?k * ?d * ?pf q * ?s)"
      by (rule max.mono [OF order_refl])
    then show ?thesis unfolding ep .
  next
    case False
    with w have b0: "0 \<le> beta0 params" and wn: "?w \<le> 0" by simp_all
    have z: "max 0 (?w * ?k * ?d * ?pf x * ?s) = 0" for x
    proof -
      have "0 \<le> beta1 params * max 0 (min 1 x)" using b by (intro mult_nonneg_nonneg) simp_all
      with b0 have pf: "0 \<le> ?pf x" by simp
      have nn: "0 \<le> ?k * ?d * ?pf x * ?s" using k d pf s by (intro mult_nonneg_nonneg)
      have "?w * (?k * ?d * ?pf x * ?s) \<le> 0" using wn nn by (rule mult_nonpos_nonneg)
      then have "?w * ?k * ?d * ?pf x * ?s \<le> 0" by (simp only: mult.assoc)
      then show ?thesis by (rule max.absorb1)
    qed
    show ?thesis unfolding ep z by simp
  qed
  from zero mono show ?thesis by blast
qed

definition example_earn :: "real \<Rightarrow> EarnEvent" where
  "example_earn k =
     \<lparr> helper = ''h'', action = \<lparr> type = mediation, base_award = 4, description = ''m'' \<rparr>,
       subject_set = [''s''], evidence_confidence = k, diversity_factor = 1,
       proximity_score = 1/2, branch_avg_credits = 50, timestamp = 0, witnesses = [''w''] \<rparr>"

theorem calculateCreditAward_zero_and_monotone_witness:
  "C_max getDefaultCreditParameters \<noteq> 0
   \<and> evidence_confidence (example_earn 0) = 0
   \<and> calculateCreditAward (example_earn 0) getDefaultCreditParameters = 0
   \<and> 0 \<le> beta1 getDefaultCreditParameters
   \<and> 0 \<le> base_award (action (example_earn 1))
   \<and> calculateCreditAward ((example_earn 1)\<lparr>proximity_score := 1/4\<rparr>) getDefaultCreditParameters
        \<le> calculateCreditAward ((example_earn 1)\<lparr>proximity_score := 3/4\<rparr>) getDefaultCreditParameters"
proof -
  have c: "C_max getDefaultCreditParameters \<noteq> 0" by (simp add: getDefaultCreditParameters_def)
  have b: "0 \<le> beta1 getDefaultCreditParameters" by (simp add: getDefaultCreditParameters_def)
  have z: "evidence_confidence (example_earn 0) = 0" by (simp add: example_earn_def)
  have w: "0 \<le> base_award (action (example_earn 1))" by (simp add: example_earn_def)
  from calculateCreditAward_zero_and_monotone [OF c, of "example_earn 0" 0 0] z
  have "calculateCreditAward (example_earn 0) getDefaultCreditParameters = 0" by blast
  moreover
  from calculateCreditAward_zero_and_monotone [OF c, of "example_earn 1" "1/4" "3/4"] b w
  have "calculateCreditAward ((example_earn 1)\<lparr>proximity_score := 1/4\<rparr>) getDefaultCreditParameters
        \<le> calculateCreditAward ((example_earn 1)\<lparr>proximity_score := 3/4\<rparr>) getDefaultCreditParameters"
    by simp
  ultimately show ?thesis using c b z w by blast
qed

section \<open>Cross-branch escalation (unnamed/part_002, imported as \<open>../math/cross_branch.js\<close>)\<close>

record Branch =
  branch_id :: string
  members :: "string list"
  avg_credits :: real
  diversity_score :: real
  open_needs_count :: real
  current_load :: real
  location_hint :: "string option"

record EscalationParameters =
  gamma1 :: real
  gamma2 :: real
  gamma3 :: real
  Theta_esc :: real
  lambda1 :: real
  lambda2 :: real
  lambda3 :: real
  max_neighbors :: real
  esc_theta :: real

record Issue =
  issue_id :: string
  issue_subject_set :: "string list"
  severity :: real
  issue_confidence :: real
  reporter :: string
  focal_branch :: string

record EscalationScore =
  esc_branch_id :: string
  esc_issue_id :: string
  local_impact :: real
  need_pressure :: real
  diversity_penalty :: real
  total_score :: real
  triggered :: bool

text \<open>
  The two nested \<open>for\<close> loops are two folds: the inner one takes the maximum pairwise
  connectedness of one member over the subject set, the outer one sums the members' impacts.
\<close>

definition calculateEscalationScore ::
  "Branch \<Rightarrow> Issue \<Rightarrow> (string \<rightharpoonup> real) \<Rightarrow> EscalationParameters \<Rightarrow> EscalationScore" where
  "calculateEscalationScore branch issue connectedness_map params =
     (let total_member_impact = foldl (\<lambda>total member.
              let member_connectedness = foldl (\<lambda>mc subject.
                      max mc (get_or_zero connectedness_map (arrow_key member subject)))
                    0 (issue_subject_set issue)
              in total + member_connectedness * severity issue * issue_confidence issue)
            0 (members branch);
          impact = (if length (members branch) > 0
                    then total_member_impact / real (length (members branch)) else 0);
          need = (if length (members branch) > 0
                  then open_needs_count branch / real (length (members branch)) else 0);
          penalty = 1 - max 0 (min 1 (diversity_score branch));
          weighted_impact = gamma1 params * impact;
          weighted_need = gamma2 params * need;
          weighted_diversity = gamma3 params * penalty;
          total = weighted_impact + weighted_need + weighted_diversity
      in \<lparr> esc_branch_id = branch_id branch,
           esc_issue_id = issue_id issue,
           local_impact = weighted_impact,
           need_pressure = weighted_need,
           diversity_penalty = weighted_diversity,
           total_score = total,
           triggered = (total \<ge> Theta_esc params) \<rparr>)"

definition getDefaultEscalationParameters :: EscalationParameters where
  "getDefaultEscalationParameters =
     \<lparr> gamma1 = 0.6, gamma2 = 0.3, gamma3 = 0.1, Theta_esc = 0.35,
       lambda1 = 0.6, lambda2 = 0.3, lambda3 = 0.1, max_neighbors = 5, esc_theta = 0.5 \<rparr>"

text \<open>\<open>`member_${i}`\<close> for a one-digit index \<open>i\<close>, as \<open>workedExample\<close> uses it.\<close>

definition member_name :: "nat \<Rightarrow> string" where
  "member_name i = ''member_'' @ [''0123456789'' ! i]"

text \<open>
  The escalation half of \<open>workedExample\<close>: the branch \<open>B\<^sub>0\<close>, the issue, the mock
  connectedness map filled by the two nested loops, and the score computed from them.
\<close>

definition workedExample_branch :: Branch where
  "workedExample_branch =
     \<lparr> branch_id = ''branch_b0'', members = map member_name [0..<10], avg_credits = 8,
       diversity_score = 0.3, open_needs_count = 5, current_load = 2, location_hint = None \<rparr>"

definition workedExample_issue :: Issue where
  "workedExample_issue =
     \<lparr> issue_id = ''issue_x'', issue_subject_set = [''subject_1'', ''subject_2''],
       severity = 0.7, issue_confidence = 0.8, reporter = ''reporter_1'',
       focal_branch = ''branch_b0'' \<rparr>"

definition workedExample_connectedness_map :: "string \<rightharpoonup> real" where
  "workedExample_connectedness_map =
     foldl (\<lambda>m member. foldl (\<lambda>m subject. m(arrow_key member subject \<mapsto> 0.4)) m
                           (issue_subject_set workedExample_issue))
       Map.empty (members workedExample_branch)"

definition workedExample_escalation_score :: EscalationScore where
  "workedExample_escalation_score =
     calculateEscalationScore workedExample_branch workedExample_issue
       workedExample_connectedness_map getDefaultEscalationParameters"

section \<open>The worked escalation example\<close>

lemma fill_subjects_lookup:
  "foldl (\<lambda>m subject. m(arrow_key a subject \<mapsto> c)) m subjects k =
     (if k \<in> arrow_key a ` set subjects then Some c else m k)"
  by (induction subjects arbitrary: m) auto

lemma fill_members_lookup:
  "foldl (\<lambda>m member. foldl (\<lambda>m subject. m(arrow_key member subject \<mapsto> c)) m subjects) m ms k =
     (if k \<in> (\<lambda>(a, s). arrow_key a s) ` (set ms \<times> set subjects) then Some c else m k)"
proof (induction ms arbitrary: m)
  case Nil
  then show ?case by simp
next
  case (Cons a ms)
  let ?F = "\<lambda>m member. foldl (\<lambda>m subject. m(arrow_key member subject \<mapsto> c)) m subjects"
  have "foldl ?F m (a # ms) k = foldl ?F (?F m a) ms k" by simp
  also have "\<dots> = (if k \<in> (\<lambda>(a, s). arrow_key a s) ` (set ms \<times> set subjects)
                    then Some c else ?F m a k)"
    by (rule Cons.IH)
  also have "?F m a k = (if k \<in> arrow_key a ` set subjects then Some c else m k)"
    by (rule fill_subjects_lookup)
  finally show ?case by auto
qed

lemma workedExample_lookup:
  assumes "member \<in> set (members workedExample_branch)"
    and "subject \<in> set (issue_subject_set workedExample_issue)"
  shows "get_or_zero workedExample_connectedness_map (arrow_key member subject) = 0.4"
proof -
  have "arrow_key member subject \<in> (\<lambda>(a, s). arrow_key a s) `
          (set (members workedExample_branch) \<times> set (issue_subject_set workedExample_issue))"
    using assms by blast
  then show ?thesis
    unfolding get_or_zero_def workedExample_connectedness_map_def fill_members_lookup by simp
qed

lemma max_fold_const:
  "\<forall>x \<in> set xs. f x = (c::real) \<Longrightarrow> xs \<noteq> [] \<Longrightarrow> a \<le> c \<Longrightarrow>
   foldl (\<lambda>mc x. max mc (f x)) a xs = c"
proof (induction xs arbitrary: a)
  case Nil
  then show ?case by simp
next
  case (Cons x xs)
  then have fx: "f x = c" by simp
  show ?case
  proof (cases xs)
    case Nil
    with fx Cons.prems show ?thesis by simp
  next
    case (Cons y ys)
    have "foldl (\<lambda>mc x. max mc (f x)) (max a (f x)) xs = c"
      using Cons.IH [of "max a (f x)"] Cons.prems Cons fx by simp
    then show ?thesis by simp
  qed
qed

lemma sum_fold_const:
  "\<forall>x \<in> set xs. f x = (c::real) \<Longrightarrow> foldl (\<lambda>total x. total + f x) a xs = a + real (length xs) * c"
  by (induction xs arbitrary: a) (simp_all add: algebra_simps)

lemma workedExample_member_connectedness:
  assumes "member \<in> set (members workedExample_branch)"
  shows "foldl (\<lambda>mc subject. max mc (get_or_zero workedExample_connectedness_map (arrow_key member subject)))
           0 (issue_subject_set workedExample_issue) = 0.4"
proof (rule max_fold_const)
  show "\<forall>subject \<in> set (issue_subject_set workedExample_issue).
          get_or_zero workedExample_connectedness_map (arrow_key member subject) = 0.4"
    using workedExample_lookup [OF assms] by blast
  show "issue_subject_set workedExample_issue \<noteq> []" by (simp add: workedExample_issue_def)
  show "(0::real) \<le> 0.4" by simp
qed

lemma workedExample_total_member_impact:
  "foldl (\<lambda>total member.
      let member_connectedness = foldl (\<lambda>mc subject.
              max mc (get_or_zero workedExample_connectedness_map (arrow_key member subject)))
            0 (issue_subject_set workedExample_issue)
      in total + member_connectedness * severity workedExample_issue * issue_confidence workedExample_issue)
    0 (members workedExample_branch) = 10 * (0.4 * 0.7 * 0.8)"
proof -
  have len: "length (members workedExample_branch) = 10"
    by (simp add: workedExample_branch_def)
  have "\<forall>member \<in> set (members workedExample_branch).
      (let member_connectedness = foldl (\<lambda>mc subject.
              max mc (get_or_zero workedExample_connectedness_map (arrow_key member subject)))
            0 (issue_subject_set workedExample_issue)
       in member_connectedness * severity workedExample_issue * issue_confidence workedExample_issue)
      = 0.4 * 0.7 * 0.8"
    by (simp add: workedExample_member_connectedness Let_def) (simp add: workedExample_issue_def)
  from sum_fold_const [OF this, of 0] len show ?thesis by (simp add: Let_def)
qed

text \<open>
  Claim C8. On the worked example (10 members, every pairwise connectedness 0.4, severity
  0.7, confidence 0.8, 5 open needs, diversity 0.3, default weights and threshold) the
  escalation is triggered, and the weighted components are \<open>\<gamma>\<^sub>1\<cdot>(0.4\<cdot>0.7\<cdot>0.8)\<close>,
  \<open>\<gamma>\<^sub>2\<cdot>(5/10)\<close> and \<open>\<gamma>\<^sub>3\<cdot>(1 - 0.3)\<close>, which add up to 0.3544. Over the reals the
  equalities are exact.
\<close>

theorem workedExample_escalation_triggered:
  "triggered workedExample_escalation_score
   \<and> local_impact workedExample_escalation_score = 0.6 * (0.4 * 0.7 * 0.8)
   \<and> need_pressure workedExample_escalation_score = 0.3 * (5 / 10)
   \<and> diversity_penalty workedExample_escalation_score = 0.1 * (1 - 0.3)
   \<and> total_score workedExample_escalation_score = 0.3544
   \<and> Theta_esc getDefaultEscalationParameters = 0.35"
proof -
  have len: "length (members workedExample_branch) = 10"
    by (simp add: workedExample_branch_def)
  have b: "open_needs_count workedExample_branch = 5" "diversity_score workedExample_branch = 0.3"
    by (simp_all add: workedExample_branch_def)
  show ?thesis
    unfolding workedExample_escalation_score_def calculateEscalationScore_def
      workedExample_total_member_impact
    by (simp add: Let_def len b getDefaultEscalationParameters_def)
qed

section \<open>Rejected earn events and the balance update\<close>

lemma total_earnings_skips_invalid:
  "foldl (\<lambda>sum event.
      if \<not> valid (validateEarnEvent event params) then sum
      else sum + calculateCreditAward event params) a evs
   = foldl (\<lambda>sum event.
      if \<not> valid (validateEarnEvent event params) then sum
      else sum + calculateCreditAward event params) a
       (filter (\<lambda>event. valid (validateEarnEvent event params)) evs)"
  by (induction evs arbitrary: a) simp_all

lemma updateCreditBalance_balance_ignores_invalid:
  "balance (updateCreditBalance bal evs spends epoch hours params)
   = balance (updateCreditBalance bal
        (filter (\<lambda>event. valid (validateEarnEvent event params)) evs) spends epoch hours params)"
  using total_earnings_skips_invalid [of params 0 evs]
  by (simp add: updateCreditBalance_def Let_def)

lemma updateCreditBalance_earn_history:
  "earn_history (updateCreditBalance bal evs spends epoch hours params) = earn_history bal @ evs"
  by (simp add: updateCreditBalance_def Let_def)

definition unwitnessed_earn :: EarnEvent where
  "unwitnessed_earn =
     \<lparr> helper = ''alice'', action = \<lparr> type = mediation, base_award = 4, description = ''talk'' \<rparr>,
       subject_set = [''bob''], evidence_confidence = 1, diversity_factor = 1,
       proximity_score = 1/2, branch_avg_credits = 50, timestamp = 0, witnesses = [] \<rparr>"

definition empty_balance :: CreditBalance where
  "empty_balance =
     \<lparr> human = ''alice'', balance = 0, last_updated_epoch = 1, earn_history = [], spend_history = [] \<rparr>"

text \<open>
  Claim C4. An earn event that validation rejects adds nothing to the balance, but
  \<open>updateCreditBalance\<close> appends every event it is given to \<open>earn_history\<close>, valid or not.
  At an event without witnesses the validation refuses, the balance stays 0, and the
  event is in the earn history of the returned record.
\<close>

theorem updateCreditBalance_records_rejected_event:
  "validateEarnEvent unwitnessed_earn getDefaultCreditParameters = Some ''At least one witness required''
   \<and> balance (updateCreditBalance empty_balance [unwitnessed_earn] [] 1 24 getDefaultCreditParameters) = 0
   \<and> earn_history (updateCreditBalance empty_balance [unwitnessed_earn] [] 1 24 getDefaultCreditParameters)
        = [unwitnessed_earn]"
proof -
  have v: "validateEarnEvent unwitnessed_earn getDefaultCreditParameters = Some ''At least one witness required''"
    by (simp add: validateEarnEvent_def unwitnessed_earn_def)
  have c: "C_max getDefaultCreditParameters = 100"
    by (simp add: getDefaultCreditParameters_def)
  have d: "applyCreditDecay empty_balance 1 24 getDefaultCreditParameters = 0"
    by (simp add: applyCreditDecay_def empty_balance_def getDefaultCreditParameters_def)
  have b: "balance (updateCreditBalance empty_balance [unwitnessed_earn] [] 1 24 getDefaultCreditParameters) = 0"
    by (simp add: updateCreditBalance_def v d valid_def Let_def c)
  have h: "earn_history (updateCreditBalance empty_balance [unwitnessed_earn] [] 1 24 getDefaultCreditParameters)
        = [unwitnessed_earn]"
    by (simp add: updateCreditBalance_earn_history empty_balance_def)
  from v b h show ?thesis by blast
qed

section \<open>Safety tiers (social/math/safety_tiers.ts)\<close>










text \<open>
  \<open>Array.from(new Set(xs))\<close>: the elements of \<open>xs\<close> in the order of their first
  occurrence.
\<close>

fun unique :: "'a list \<Rightarrow> 'a list" where
  "unique [] = []"
| "unique (x # xs) = x # unique (filter (\<lambda>y. y \<noteq> x) xs)"






section \<open>Decay of the safety impact\<close>






















section \<open>The sponsor graph (social/math/connectedness.ts)\<close>

text \<open>
  The graph is a \<open>Map<string, string[]>\<close>: a partial map from a participant to the
  array of its neighbours. \<open>graph.get(u) || []\<close> reads a missing key as the empty array.
\<close>

type_synonym sponsor_graph = "string \<rightharpoonup> string list"

definition neighbors :: "sponsor_graph \<Rightarrow> string \<Rightarrow> string list" where
  "neighbors graph u = (case graph u of None \<Rightarrow> [] | Some edges \<Rightarrow> edges)"

record HER =
  sponsors :: "string list"

text \<open>
  The body of the inner loop of \<open>buildSponsorGraph\<close> for one declared sponsor: the
  forward edge \<open>sponsor \<rightarrow> herCID\<close>, then the backward edge \<open>herCID \<rightarrow> sponsor\<close>, each
  pushed only when the array does not hold it yet. The second read sees the first write.
\<close>

definition add_sponsor_edges :: "string \<Rightarrow> sponsor_graph \<Rightarrow> string \<Rightarrow> sponsor_graph" where
  "add_sponsor_edges herCID graph sponsor =
     (let sponsorEdges = neighbors graph sponsor;
          graph1 = (if herCID \<notin> set sponsorEdges
                    then graph(sponsor \<mapsto> sponsorEdges @ [herCID]) else graph);
          humanEdges = neighbors graph1 herCID
      in if sponsor \<notin> set humanEdges
         then graph1(herCID \<mapsto> humanEdges @ [sponsor]) else graph1)"

text \<open>
  \<open>herData\<close> is a \<open>Map\<close> iterated in insertion order: the list of its entries.
\<close>

definition buildSponsorGraph :: "(string \<times> HER) list \<Rightarrow> sponsor_graph" where
  "buildSponsorGraph herData =
     foldl (\<lambda>graph (herCID, data). foldl (add_sponsor_edges herCID) graph (sponsors data))
       Map.empty herData"

section \<open>Shape of the built graph\<close>

definition symmetric_graph :: "sponsor_graph \<Rightarrow> bool" where
  "symmetric_graph g = (\<forall>u v. u \<in> set (neighbors g v) \<longleftrightarrow> v \<in> set (neighbors g u))"

definition duplicate_free :: "sponsor_graph \<Rightarrow> bool" where
  "duplicate_free g = (\<forall>u. distinct (neighbors g u))"

definition no_self_edges :: "sponsor_graph \<Rightarrow> bool" where
  "no_self_edges g = (\<forall>u. u \<notin> set (neighbors g u))"

text \<open>One guarded \<open>push\<close>: the array of \<open>k\<close> gets \<open>x\<close> unless it holds it already.\<close>

definition push_if_absent :: "sponsor_graph \<Rightarrow> string \<Rightarrow> string \<Rightarrow> sponsor_graph" where
  "push_if_absent g k x = (if x \<notin> set (neighbors g k) then g(k \<mapsto> neighbors g k @ [x]) else g)"

lemma add_sponsor_edges_pushes:
  "add_sponsor_edges h g s = push_if_absent (push_if_absent g s h) h s"
  by (simp add: add_sponsor_edges_def push_if_absent_def Let_def)

lemma neighbors_upd: "neighbors (g(k \<mapsto> xs)) u = (if u = k then xs else neighbors g u)"
  by (simp add: neighbors_def)

lemma neighbors_push_if_absent:
  "set (neighbors (push_if_absent g k x) u) = set (neighbors g u) \<union> (if u = k then {x} else {})"
  by (cases "x \<in> set (neighbors g k)") (auto simp: push_if_absent_def neighbors_upd)

lemma distinct_push_if_absent:
  "distinct (neighbors g u) \<Longrightarrow> distinct (neighbors (push_if_absent g k x) u)"
  by (cases "x \<in> set (neighbors g k)") (auto simp: push_if_absent_def neighbors_upd)

lemma neighbors_add_sponsor_edges:
  "set (neighbors (add_sponsor_edges h g s) u) =
     set (neighbors g u) \<union> (if u = s then {h} else {}) \<union> (if u = h then {s} else {})"
  unfolding add_sponsor_edges_pushes neighbors_push_if_absent ..

lemma symmetric_add_sponsor_edges:
  assumes "symmetric_graph g"
  shows "symmetric_graph (add_sponsor_edges h g s)"
proof -
  have "u \<in> set (neighbors (add_sponsor_edges h g s) v)
          \<longleftrightarrow> v \<in> set (neighbors (add_sponsor_edges h g s) u)" for u v
  proof -
    from assms have g: "u \<in> set (neighbors g v) \<longleftrightarrow> v \<in> set (neighbors g u)"
      unfolding symmetric_graph_def by blast
    show ?thesis unfolding neighbors_add_sponsor_edges using g
      by (cases "v = s"; cases "v = h"; cases "u = s"; cases "u = h") simp_all
  qed
  then show ?thesis unfolding symmetric_graph_def by blast
qed

lemma duplicate_free_add_sponsor_edges:
  "duplicate_free g \<Longrightarrow> duplicate_free (add_sponsor_edges h g s)"
  unfolding duplicate_free_def add_sponsor_edges_pushes
  by (simp add: distinct_push_if_absent)

lemma no_self_edges_add_sponsor_edges:
  assumes "no_self_edges g" and "h \<noteq> s"
  shows "no_self_edges (add_sponsor_edges h g s)"
proof -
  have "u \<notin> set (neighbors (add_sponsor_edges h g s) u)" for u
  proof -
    from assms have "u \<notin> set (neighbors g u)" unfolding no_self_edges_def by blast
    with assms(2) show ?thesis unfolding neighbors_add_sponsor_edges
      by (cases "u = s"; cases "u = h") simp_all
  qed
  then show ?thesis unfolding no_self_edges_def by blast
qed

lemma inner_loop_symmetric:
  "symmetric_graph g \<Longrightarrow> symmetric_graph (foldl (add_sponsor_edges h) g ss)"
  by (induction ss arbitrary: g) (simp_all add: symmetric_add_sponsor_edges)

lemma inner_loop_duplicate_free:
  "duplicate_free g \<Longrightarrow> duplicate_free (foldl (add_sponsor_edges h) g ss)"
  by (induction ss arbitrary: g) (simp_all add: duplicate_free_add_sponsor_edges)

lemma inner_loop_no_self_edges:
  "no_self_edges g \<Longrightarrow> h \<notin> set ss \<Longrightarrow> no_self_edges (foldl (add_sponsor_edges h) g ss)"
  by (induction ss arbitrary: g) (simp_all add: no_self_edges_add_sponsor_edges)

lemma outer_loop_symmetric:
  "symmetric_graph g \<Longrightarrow>
   symmetric_graph (foldl (\<lambda>graph (herCID, data). foldl (add_sponsor_edges herCID) graph (sponsors data)) g entries)"
proof (induction entries arbitrary: g)
  case Nil
  then show ?case by simp
next
  case (Cons e entries)
  obtain h d where e: "e = (h, d)" by (cases e)
  show ?case unfolding e foldl_Cons prod.case
    by (rule Cons.IH) (rule inner_loop_symmetric [OF Cons.prems])
qed

lemma outer_loop_duplicate_free:
  "duplicate_free g \<Longrightarrow>
   duplicate_free (foldl (\<lambda>graph (herCID, data). foldl (add_sponsor_edges herCID) graph (sponsors data)) g entries)"
proof (induction entries arbitrary: g)
  case Nil
  then show ?case by simp
next
  case (Cons e entries)
  obtain h d where e: "e = (h, d)" by (cases e)
  show ?case unfolding e foldl_Cons prod.case
    by (rule Cons.IH) (rule inner_loop_duplicate_free [OF Cons.prems])
qed

lemma outer_loop_no_self_edges:
  "no_self_edges g \<Longrightarrow> \<forall>(herCID, data) \<in> set entries. herCID \<notin> set (sponsors data) \<Longrightarrow>
   no_self_edges (foldl (\<lambda>graph (herCID, data). foldl (add_sponsor_edges herCID) graph (sponsors data)) g entries)"
proof (induction entries arbitrary: g)
  case Nil
  then show ?case by simp
next
  case (Cons e entries)
  obtain h d where e: "e = (h, d)" by (cases e)
  from Cons.prems(2) e have hd: "h \<notin> set (sponsors d)"
    and rest: "\<forall>(herCID, data) \<in> set entries. herCID \<notin> set (sponsors data)" by simp_all
  show ?case unfolding e foldl_Cons prod.case
    by (rule Cons.IH [OF inner_loop_no_self_edges [OF Cons.prems(1) hd] rest])
qed

lemma empty_graph_invariants:
  "symmetric_graph Map.empty" "duplicate_free Map.empty" "no_self_edges Map.empty"
  by (simp_all add: symmetric_graph_def duplicate_free_def no_self_edges_def neighbors_def)

text \<open>
  Claim C3, as the code has it. The adjacency mapping returned by \<open>buildSponsorGraph\<close>
  is symmetric and holds each neighbour at most once, whatever is declared and however
  often; it has no self-edge provided no participant declares itself as its own sponsor.
\<close>

theorem buildSponsorGraph_symmetric_deduplicated:
  "(\<forall>u v. u \<in> set (neighbors (buildSponsorGraph herData) v)
            \<longleftrightarrow> v \<in> set (neighbors (buildSponsorGraph herData) u))
   \<and> (\<forall>u. distinct (neighbors (buildSponsorGraph herData) u))
   \<and> ((\<forall>(herCID, data) \<in> set herData. herCID \<notin> set (sponsors data))
        \<longrightarrow> (\<forall>u. u \<notin> set (neighbors (buildSponsorGraph herData) u)))"
proof -
  have "symmetric_graph (buildSponsorGraph herData)"
    unfolding buildSponsorGraph_def by (rule outer_loop_symmetric [OF empty_graph_invariants(1)])
  moreover have "duplicate_free (buildSponsorGraph herData)"
    unfolding buildSponsorGraph_def by (rule outer_loop_duplicate_free [OF empty_graph_invariants(2)])
  moreover have "no_self_edges (buildSponsorGraph herData)"
    if "\<forall>(herCID, data) \<in> set herData. herCID \<notin> set (sponsors data)"
    unfolding buildSponsorGraph_def
    by (rule outer_loop_no_self_edges [OF empty_graph_invariants(3) that])
  ultimately show ?thesis
    unfolding symmetric_graph_def duplicate_free_def no_self_edges_def by blast
qed

text \<open>
  A participant that lists itself as a sponsor gets itself as a neighbour, so the
  built graph has a self-edge.
\<close>

theorem buildSponsorGraph_self_edge_counterexample:
  "neighbors (buildSponsorGraph [(''a'', \<lparr> sponsors = [''a''] \<rparr>)]) ''a'' = [''a'']"
  by (simp add: buildSponsorGraph_def add_sponsor_edges_def neighbors_def)

theorem buildSponsorGraph_symmetric_deduplicated_witness:
  "''b'' \<notin> set (sponsors \<lparr> sponsors = [''a'', ''a''] \<rparr>)
   \<and> ''c'' \<notin> set (sponsors \<lparr> sponsors = [''a'', ''b''] \<rparr>)
   \<and> neighbors (buildSponsorGraph [(''b'', \<lparr> sponsors = [''a'', ''a''] \<rparr>), (''c'', \<lparr> sponsors = [''a'', ''b''] \<rparr>)]) ''a''
        = [''b'', ''c'']
   \<and> ''a'' \<in> set (neighbors (buildSponsorGraph [(''b'', \<lparr> sponsors = [''a'', ''a''] \<rparr>), (''c'', \<lparr> sponsors = [''a'', ''b''] \<rparr>)]) ''b'')
   \<and> distinct (neighbors (buildSponsorGraph [(''b'', \<lparr> sponsors = [''a'', ''a''] \<rparr>), (''c'', \<lparr> sponsors = [''a'', ''b''] \<rparr>)]) ''b'')
   \<and> ''a'' \<notin> set (neighbors (buildSponsorGraph [(''b'', \<lparr> sponsors = [''a'', ''a''] \<rparr>), (''c'', \<lparr> sponsors = [''a'', ''b''] \<rparr>)]) ''a'')"
proof -
  let ?d = "[(''b'', \<lparr> sponsors = [''a'', ''a''] \<rparr>), (''c'', \<lparr> sponsors = [''a'', ''b''] \<rparr>)]"
  have h: "\<forall>(herCID, data) \<in> set ?d. herCID \<notin> set (sponsors data)" by simp
  have n: "neighbors (buildSponsorGraph ?d) ''a'' = [''b'', ''c'']"
    by (simp add: buildSponsorGraph_def add_sponsor_edges_def neighbors_def)
  have "''b'' \<in> set (neighbors (buildSponsorGraph ?d) ''a'')" by (simp add: n)
  with buildSponsorGraph_symmetric_deduplicated [of ?d] h n show ?thesis by simp
qed

section \<open>Connectedness (social/math/connectedness.ts)\<close>

text \<open>
  \<open>shortestPath\<close> is \<open>Infinity\<close> when no path exists: an extended natural number.
\<close>

record ConnectednessResult =
  score :: real
  pathCount :: nat
  shortestPath :: enat
  diversityScore :: real
  confidence :: real

text \<open>
  The options after the merge \<open>{ ...DEFAULT_OPTIONS, ...options }\<close>, which fills every
  field; the functions below take the merged record \<open>opts\<close>.
\<close>

record ConnectednessOptions =
  maxDepth :: nat
  decayFactor :: real
  minPathDiversity :: real
  confidenceThreshold :: real

definition DEFAULT_OPTIONS :: ConnectednessOptions where
  "DEFAULT_OPTIONS =
     \<lparr> maxDepth = 6, decayFactor = 1/3, minPathDiversity = 0.7, confidenceThreshold = 0.6 \<rparr>"

text \<open>
  The depth-first search of \<open>findWeightedPaths\<close>. Its two captured variables, the array
  \<open>paths\<close> and the set \<open>visited\<close>, are the state that every call takes and returns.
  The \<open>for\<close> loop over the neighbours is the fold.
\<close>

record dfs_state =
  paths :: "string list list"
  visited :: "string set"

function dfs ::
  "sponsor_graph \<Rightarrow> string \<Rightarrow> nat \<Rightarrow> string \<Rightarrow> string list \<Rightarrow> nat \<Rightarrow> dfs_state \<Rightarrow> dfs_state" where
  "dfs graph target maxD current path depth st =
     (if depth > maxD then st
      else if current \<in> visited st \<and> current \<noteq> target then st
      else if current = target \<and> length path > 1 then st\<lparr> paths := paths st @ [path] \<rparr>
      else
        let st1 = st\<lparr> visited := insert current (visited st) \<rparr>;
            st2 = foldl (\<lambda>s neighbor.
                    if neighbor \<notin> set path
                    then dfs graph target maxD neighbor (path @ [neighbor]) (depth + 1) s
                    else s) st1 (neighbors graph current)
        in st2\<lparr> visited := visited st2 - {current} \<rparr>)"
  by pat_completeness auto
termination
  by (relation "measure (\<lambda>(graph, target, maxD, current, path, depth, st). maxD + 1 - depth)") auto

declare dfs.simps [simp del]

text \<open>
  \<open>uniquePaths\<close> keeps the first occurrence of every path (\<open>JSON.stringify\<close> is
  injective on arrays of strings); \<open>Array.prototype.sort\<close> is stable, as \<open>sort_key\<close> is.
\<close>

definition findWeightedPaths ::
  "string \<Rightarrow> string \<Rightarrow> sponsor_graph \<Rightarrow> nat \<Rightarrow> string list list" where
  "findWeightedPaths source target graph maxD =
     (let st = dfs graph target maxD source [source] 0 \<lparr> paths = [], visited = {} \<rparr>;
          uniquePaths = unique (paths st)
      in sort_key length uniquePaths)"

record WeightedPath =
  path :: "string list"
  weight :: real
  length_wp :: nat

text \<open>
  The number of interior nodes of \<open>pathA\<close> that occur in \<open>pathB\<close>, over the longer of the
  two lengths: one summand of \<open>pairOverlap\<close>.
\<close>

definition overlap :: "WeightedPath \<Rightarrow> WeightedPath \<Rightarrow> real" where
  "overlap pathA pathB =
     (let overlapNodes = filter (\<lambda>(idx, node).
              idx > 0 \<and> idx + 1 < length (path pathA) \<and> node \<in> set (path pathB))
            (List.enumerate 0 (path pathA));
          maxLength = max (length (path pathA)) (length (path pathB))
      in real (length overlapNodes) / real maxLength)"

definition calculatePathDiversity :: "WeightedPath list \<Rightarrow> real" where
  "calculatePathDiversity weightedPaths =
     (if length weightedPaths \<le> 1 then 1.0
      else
        let totalOverlap = foldl (\<lambda>totalOverlap (i, pathA).
                totalOverlap + foldl (\<lambda>pairOverlap pathB. pairOverlap + overlap pathA pathB)
                                 0 (drop (i + 1) weightedPaths))
              0 (List.enumerate 0 weightedPaths);
            maxPossibleOverlap =
              real (length weightedPaths * (length weightedPaths - 1)) / 2;
            overlapRatio = (if maxPossibleOverlap > 0 then totalOverlap / maxPossibleOverlap else 0)
        in max 0 (1 - overlapRatio))"

definition calculateConfidence :: "WeightedPath list \<Rightarrow> real \<Rightarrow> real" where
  "calculateConfidence weightedPaths diversity =
     (if length weightedPaths = 0 then 0
      else
        let pathCountFactor = min 1.0 (real (length weightedPaths) / 3);
            diversityFactor = diversity;
            lengths = map length_wp weightedPaths;
            avgLength = foldl (\<lambda>sum len. sum + real len) 0 lengths / real (length lengths);
            lengthVariance = foldl (\<lambda>sum len. sum + (real len - avgLength) ^ 2) 0 lengths
                               / real (length lengths);
            consistencyFactor = 1 / (1 + lengthVariance)
        in pathCountFactor * 0.4 + diversityFactor * 0.4 + consistencyFactor * 0.2)"

text \<open>
  Every path that the search returns has at least two nodes (lemma
  \<open>findWeightedPaths_length\<close> below), so the exponent \<open>path.length - 1\<close> of \<open>Math.pow\<close>
  is a natural number and the power is \<open>^\<close>.
\<close>

definition calculatePairwiseConnectedness ::
  "string \<Rightarrow> string \<Rightarrow> sponsor_graph \<Rightarrow> ConnectednessOptions \<Rightarrow> ConnectednessResult" where
  "calculatePairwiseConnectedness sourceHER targetHER sponsorGraph opts =
     (if targetHER \<in> set (neighbors sponsorGraph sourceHER)
      then \<lparr> score = 1.0, pathCount = 1, shortestPath = 1, diversityScore = 1.0, confidence = 1.0 \<rparr>
      else
        let ps = findWeightedPaths sourceHER targetHER sponsorGraph (maxDepth opts)
        in if length ps = 0
           then \<lparr> score = 0.0, pathCount = 0, shortestPath = \<infinity>, diversityScore = 0.0,
                  confidence = 1.0 \<rparr>
           else
             let weightedPaths = map (\<lambda>p. \<lparr> path = p, weight = decayFactor opts ^ (length p - 1),
                                            length_wp = length p \<rparr>) ps;
                 diversity = calculatePathDiversity weightedPaths;
                 totalWeight = foldl (\<lambda>sum wp. sum + weight wp) 0 weightedPaths;
                 normalizedScore = min 1.0 totalWeight;
                 conf = calculateConfidence weightedPaths diversity
             in \<lparr> score = normalizedScore,
                  pathCount = length ps,
                  shortestPath = foldl min \<infinity> (map (\<lambda>p. enat (length p)) ps),
                  diversityScore = diversity,
                  confidence = conf \<rparr>)"

text \<open>
  The union over a target set. \<open>validResults\<close> is non-empty in the second branch, where
  \<open>Math.max(...)\<close> is taken; \<open>Math.min(...)\<close> of no argument is \<open>Infinity\<close>.
\<close>

definition calculateUnionConnectedness ::
  "string \<Rightarrow> string list \<Rightarrow> sponsor_graph \<Rightarrow> ConnectednessOptions \<Rightarrow> ConnectednessResult" where
  "calculateUnionConnectedness sourceHER targetSet sponsorGraph opts =
     (let pairwiseResults = map (\<lambda>target.
              calculatePairwiseConnectedness sourceHER target sponsorGraph opts) targetSet;
          validResults = filter (\<lambda>r. confidence r \<ge> confidenceThreshold opts) pairwiseResults
      in case validResults of
           [] \<Rightarrow> \<lparr> score = 0.0, pathCount = 0, shortestPath = \<infinity>, diversityScore = 0.0,
                   confidence = 0.0 \<rparr>
         | r # rs \<Rightarrow>
             let maxScore = foldl max (score r) (map score rs);
                 totalPaths = foldl (\<lambda>sum r. sum + pathCount r) 0 validResults;
                 shortest = foldl min \<infinity> (map shortestPath validResults);
                 weightedDiversitySum =
                   foldl (\<lambda>sum r. sum + diversityScore r * confidence r) 0 validResults;
                 totalConfidence = foldl (\<lambda>sum r. sum + confidence r) 0 validResults;
                 avgDiversity = (if totalConfidence > 0
                                 then weightedDiversitySum / totalConfidence else 0);
                 overallConfidence = foldl (\<lambda>sum r. sum + confidence r) 0 validResults
                                       / real (length validResults)
             in \<lparr> score = maxScore, pathCount = totalPaths, shortestPath = shortest,
                  diversityScore = avgDiversity, confidence = overallConfidence \<rparr>)"

section \<open>What the path search finds\<close>

text \<open>
  The paths that one call of \<open>dfs\<close> appends, as a function of the call's arguments
  alone. It is the search without its \<open>visited\<close> set, which lemma \<open>dfs_paths_from\<close>
  shows to be redundant: a node in \<open>visited\<close> is on the current path, and the loop
  already skips those.
\<close>

function paths_from ::
  "sponsor_graph \<Rightarrow> string \<Rightarrow> nat \<Rightarrow> string \<Rightarrow> string list \<Rightarrow> nat \<Rightarrow> string list list" where
  "paths_from graph target maxD current p depth =
     (if depth > maxD then []
      else if current = target \<and> length p > 1 then [p]
      else concat (map (\<lambda>neighbor.
             if neighbor \<notin> set p
             then paths_from graph target maxD neighbor (p @ [neighbor]) (depth + 1)
             else []) (neighbors graph current)))"
  by pat_completeness auto
termination
  by (relation "measure (\<lambda>(graph, target, maxD, current, p, depth). maxD + 1 - depth)") auto

declare paths_from.simps [simp del]

lemma foldl_appends_paths:
  assumes "\<And>s n. n \<in> set ns \<Longrightarrow> visited s = V \<Longrightarrow> step s n = s\<lparr> paths := paths s @ f n \<rparr>"
  shows "visited s = V \<Longrightarrow> foldl step s ns = s\<lparr> paths := paths s @ concat (map f ns) \<rparr>"
  using assms
proof (induction ns arbitrary: s)
  case Nil
  then show ?case by simp
next
  case (Cons n ns)
  have st: "step s n = s\<lparr> paths := paths s @ f n \<rparr>"
    using Cons.prems by simp
  have v: "visited (step s n) = V" using st Cons.prems(1) by simp
  have "foldl step (step s n) ns = (step s n)\<lparr> paths := paths (step s n) @ concat (map f ns) \<rparr>"
    by (rule Cons.IH [OF v]) (simp add: Cons.prems(2))
  then show ?case by (simp add: st)
qed

lemma last_not_in_butlast: "distinct p \<Longrightarrow> p \<noteq> [] \<Longrightarrow> last p \<notin> set (butlast p)"
  by (metis append_butlast_last_id distinct_append disjoint_iff list.set_intros(1))

lemma dfs_paths_from:
  "p \<noteq> [] \<Longrightarrow> last p = c \<Longrightarrow> distinct p \<Longrightarrow> visited st \<subseteq> set (butlast p) \<Longrightarrow>
   dfs g t M c p d st = st\<lparr> paths := paths st @ paths_from g t M c p d \<rparr>"
proof (induction g t M c p d st rule: dfs.induct)
  case (1 g t M c p d st)
  have cv: "c \<notin> visited st"
    using last_not_in_butlast [OF "1.prems"(3) "1.prems"(1)] "1.prems"(2,4) by blast
  have cp: "c \<in> set p" using "1.prems"(1,2) by auto
  have vp: "visited st \<subseteq> set p" using "1.prems"(4) by (meson in_set_butlastD subset_iff)
  show ?case
  proof (cases "M < d")
    case True
    then show ?thesis by (subst dfs.simps, subst paths_from.simps) simp
  next
    case deep: False
    show ?thesis
    proof (cases "c = t \<and> 1 < length p")
      case True
      with deep cv show ?thesis by (subst dfs.simps, subst paths_from.simps) simp
    next
      case False
      let ?st1 = "st\<lparr> visited := insert c (visited st) \<rparr>"
      let ?step = "\<lambda>s n. if n \<notin> set p then dfs g t M n (p @ [n]) (d + 1) s else s"
      let ?f = "\<lambda>n. if n \<notin> set p then paths_from g t M n (p @ [n]) (d + 1) else []"
      have step: "?step s n = s\<lparr> paths := paths s @ ?f n \<rparr>"
        if n: "n \<in> set (neighbors g c)" and s: "visited s = insert c (visited st)" for s n
      proof (cases "n \<in> set p")
        case True
        then show ?thesis by simp
      next
        case np: False
        have "dfs g t M n (p @ [n]) (d + 1) s
                = s\<lparr> paths := paths s @ paths_from g t M n (p @ [n]) (d + 1) \<rparr>"
        proof (rule "1.IH" [OF deep _ False refl n np])
          show "\<not> (c \<in> visited st \<and> c \<noteq> t)" using cv by simp
          show "p @ [n] \<noteq> []" by simp
          show "last (p @ [n]) = n" by simp
          show "distinct (p @ [n])" using "1.prems"(3) np by simp
          show "visited s \<subseteq> set (butlast (p @ [n]))" using s cp vp by simp
        qed
        with np show ?thesis by simp
      qed
      have loop: "foldl ?step ?st1 (neighbors g c)
                   = ?st1\<lparr> paths := paths ?st1 @ concat (map ?f (neighbors g c)) \<rparr>"
        by (rule foldl_appends_paths [where V = "insert c (visited st)"]) (simp_all add: step)
      have pf: "paths_from g t M c p d = concat (map ?f (neighbors g c))"
        using deep False by (subst paths_from.simps) auto
      have "dfs g t M c p d st
              = (let st2 = foldl ?step ?st1 (neighbors g c) in st2\<lparr> visited := visited st2 - {c} \<rparr>)"
        using deep False cv by (subst dfs.simps) (auto simp: Let_def)
      also have "\<dots> = st\<lparr> paths := paths st @ concat (map ?f (neighbors g c)) \<rparr>"
        unfolding loop using cv by (simp add: Let_def)
      finally show ?thesis unfolding pf .
    qed
  qed
qed

lemma set_unique: "set (unique xs) = set xs"
  by (induction xs rule: unique.induct) auto

lemma distinct_unique: "distinct (unique xs)"
  by (induction xs rule: unique.induct) (auto simp: set_unique)

lemma findWeightedPaths_set:
  "set (findWeightedPaths s t g M) = set (paths_from g t M s [s] 0)"
  by (simp add: findWeightedPaths_def Let_def dfs_paths_from set_unique)

lemma findWeightedPaths_distinct: "distinct (findWeightedPaths s t g M)"
  by (simp add: findWeightedPaths_def Let_def distinct_unique)

lemma paths_from_length:
  "q \<in> set (paths_from g t M c p d) \<Longrightarrow> 1 < length q"
proof (induction g t M c p d rule: paths_from.induct)
  case (1 g t M c p d)
  show ?case
  proof (cases "M < d")
    case True
    with "1.prems" show ?thesis by (simp add: paths_from.simps)
  next
    case deep: False
    show ?thesis
    proof (cases "c = t \<and> 1 < length p")
      case True
      with deep "1.prems" show ?thesis by (simp add: paths_from.simps)
    next
      case False
      from "1.prems" deep False obtain n where n: "n \<in> set (neighbors g c)" "n \<notin> set p"
        and q: "q \<in> set (paths_from g t M n (p @ [n]) (d + 1))"
        by (subst (asm) paths_from.simps) (auto split: if_splits)
      from "1.IH" [OF deep False n q] show ?thesis .
    qed
  qed
qed

lemma findWeightedPaths_length: "q \<in> set (findWeightedPaths s t g M) \<Longrightarrow> 1 < length q"
  unfolding findWeightedPaths_set by (rule paths_from_length)

lemma paths_from_mono:
  "\<forall>u. set (neighbors g u) \<subseteq> set (neighbors g' u) \<Longrightarrow>
   q \<in> set (paths_from g t M c p d) \<Longrightarrow> q \<in> set (paths_from g' t M c p d)"
proof (induction g t M c p d rule: paths_from.induct)
  case (1 g t M c p d)
  note sub = "1.prems"(1)
  show ?case
  proof (cases "M < d")
    case True
    with "1.prems"(2) show ?thesis by (simp add: paths_from.simps)
  next
    case deep: False
    show ?thesis
    proof (cases "c = t \<and> 1 < length p")
      case True
      with deep "1.prems"(2) show ?thesis by (simp add: paths_from.simps)
    next
      case False
      from "1.prems"(2) deep False obtain n where n: "n \<in> set (neighbors g c)" "n \<notin> set p"
        and q: "q \<in> set (paths_from g t M n (p @ [n]) (d + 1))"
        by (subst (asm) paths_from.simps) (auto split: if_splits)
      have q': "q \<in> set (paths_from g' t M n (p @ [n]) (d + 1))"
        by (rule "1.IH" [OF deep False n sub q])
      have n': "n \<in> set (neighbors g' c)" using n(1) sub by blast
      show ?thesis
        using deep False n' n(2) q' by (subst paths_from.simps) auto
    qed
  qed
qed

section \<open>Bounds of the connectedness results\<close>

lemma foldl_add_sum_list:
  "foldl (\<lambda>sum x. sum + f x) a xs = (a::real) + sum_list (map f xs)"
  by (induction xs arbitrary: a) simp_all

lemma foldl_step_ge:
  "(\<And>s x. x \<in> set xs \<Longrightarrow> s \<le> step s x) \<Longrightarrow> (a::real) \<le> foldl step a xs"
proof (induction xs arbitrary: a)
  case Nil
  then show ?case by simp
next
  case (Cons x xs)
  have "a \<le> step a x" using Cons.prems by simp
  also have "\<dots> \<le> foldl step (step a x) xs" using Cons.prems by (intro Cons.IH) simp
  finally show ?case by simp
qed

lemma overlap_nonneg: "0 \<le> overlap a b"
  by (simp add: overlap_def Let_def)

lemma calculatePathDiversity_bounds:
  "0 \<le> calculatePathDiversity wps \<and> calculatePathDiversity wps \<le> 1"
proof (cases "length wps \<le> 1")
  case True
  then show ?thesis by (simp add: calculatePathDiversity_def)
next
  case False
  let ?total = "foldl (\<lambda>totalOverlap (i, pathA).
                totalOverlap + foldl (\<lambda>pairOverlap pathB. pairOverlap + overlap pathA pathB)
                                 0 (drop (i + 1) wps))
              0 (List.enumerate 0 wps)"
  let ?maxp = "real (length wps * (length wps - 1)) / 2"
  have inner: "0 \<le> foldl (\<lambda>pairOverlap pathB. pairOverlap + overlap a pathB) 0 bs" for a bs
    by (rule foldl_step_ge) (simp add: overlap_nonneg)
  have total: "0 \<le> ?total"
    by (rule foldl_step_ge) (auto simp: inner)
  have ratio: "0 \<le> (if ?maxp > 0 then ?total / ?maxp else 0)"
    using total by simp
  have "calculatePathDiversity wps = max 0 (1 - (if ?maxp > 0 then ?total / ?maxp else 0))"
    using False by (simp add: calculatePathDiversity_def Let_def)
  with ratio show ?thesis by simp
qed

lemma blend_bounds:
  fixes a b c :: real
  assumes "0 \<le> a" "a \<le> 1" "0 \<le> b" "b \<le> 1" "0 \<le> c" "c \<le> 1"
  shows "0 \<le> a * 0.4 + b * 0.4 + c * 0.2" and "a * 0.4 + b * 0.4 + c * 0.2 \<le> 1"
  using assms by simp_all

lemma calculateConfidence_bounds:
  assumes "0 \<le> d" and "d \<le> 1"
  shows "0 \<le> calculateConfidence wps d \<and> calculateConfidence wps d \<le> 1"
proof (cases "length wps = 0")
  case True
  then show ?thesis by (simp add: calculateConfidence_def)
next
  case False
  let ?lengths = "map length_wp wps"
  let ?avg = "foldl (\<lambda>sum len. sum + real len) 0 ?lengths / real (length ?lengths)"
  let ?var = "foldl (\<lambda>sum len. sum + (real len - ?avg) ^ 2) 0 ?lengths / real (length ?lengths)"
  let ?pcf = "min 1 (real (length wps) / 3)"
  let ?cons = "1 / (1 + ?var)"
  have "0 \<le> foldl (\<lambda>sum len. sum + (real len - ?avg) ^ 2) 0 ?lengths"
    by (rule foldl_step_ge) simp
  then have var: "0 \<le> ?var" by simp
  then have cons: "0 \<le> ?cons" "?cons \<le> 1" by simp_all
  have pcf: "0 \<le> ?pcf" "?pcf \<le> 1" by simp_all
  have eq: "calculateConfidence wps d = ?pcf * 0.4 + d * 0.4 + ?cons * 0.2"
    using False by (simp add: calculateConfidence_def Let_def)
  show ?thesis unfolding eq
    using blend_bounds [OF pcf(1) pcf(2) assms(1) assms(2) cons(1) cons(2)] by blast
qed

text \<open>The weight that \<open>calculatePairwiseConnectedness\<close> gives a path.\<close>

definition path_weight :: "ConnectednessOptions \<Rightarrow> string list \<Rightarrow> real" where
  "path_weight opts p = decayFactor opts ^ (length p - 1)"

lemma path_weight_nonneg: "0 \<le> decayFactor opts \<Longrightarrow> 0 \<le> path_weight opts p"
  by (simp add: path_weight_def)

lemma pairwise_score:
  "score (calculatePairwiseConnectedness s t g opts) =
     (if t \<in> set (neighbors g s) then 1
      else min 1 (sum (path_weight opts) (set (paths_from g t (maxDepth opts) s [s] 0))))"
proof (cases "t \<in> set (neighbors g s)")
  case True
  then show ?thesis by (simp add: calculatePairwiseConnectedness_def)
next
  case False
  let ?ps = "findWeightedPaths s t g (maxDepth opts)"
  have sum: "sum_list (map (path_weight opts) ?ps)
              = sum (path_weight opts) (set (paths_from g t (maxDepth opts) s [s] 0))"
    using sum_list_distinct_conv_sum_set [OF findWeightedPaths_distinct, of "path_weight opts" s t g "maxDepth opts"]
    by (simp add: findWeightedPaths_set)
  show ?thesis
  proof (cases "?ps = []")
    case True
    then have "set (paths_from g t (maxDepth opts) s [s] 0) = {}"
      using findWeightedPaths_set [of s t g "maxDepth opts"] by simp
    with True False show ?thesis
      by (simp add: calculatePairwiseConnectedness_def Let_def)
  next
    case ne: False
    have "score (calculatePairwiseConnectedness s t g opts)
            = min 1 (foldl (\<lambda>sum wp. sum + weight wp) 0
                 (map (\<lambda>p. \<lparr> path = p, weight = decayFactor opts ^ (length p - 1), length_wp = length p \<rparr>) ?ps))"
      using False ne by (simp add: calculatePairwiseConnectedness_def Let_def)
    also have "\<dots> = min 1 (sum_list (map (path_weight opts) ?ps))"
      by (simp add: foldl_add_sum_list comp_def path_weight_def [abs_def])
    finally show ?thesis using False sum by simp
  qed
qed

lemma pairwise_bounds:
  assumes "0 \<le> decayFactor opts"
  shows "0 \<le> score (calculatePairwiseConnectedness s t g opts)"
    and "score (calculatePairwiseConnectedness s t g opts) \<le> 1"
    and "0 \<le> diversityScore (calculatePairwiseConnectedness s t g opts)"
    and "diversityScore (calculatePairwiseConnectedness s t g opts) \<le> 1"
    and "0 \<le> confidence (calculatePairwiseConnectedness s t g opts)"
    and "confidence (calculatePairwiseConnectedness s t g opts) \<le> 1"
proof -
  have "0 \<le> sum (path_weight opts) (set (paths_from g t (maxDepth opts) s [s] 0))"
    by (rule sum_nonneg) (rule path_weight_nonneg [OF assms])
  then show "0 \<le> score (calculatePairwiseConnectedness s t g opts)"
    and "score (calculatePairwiseConnectedness s t g opts) \<le> 1"
    unfolding pairwise_score by simp_all
next
  let ?ps = "findWeightedPaths s t g (maxDepth opts)"
  let ?wps = "map (\<lambda>p. \<lparr> path = p, weight = decayFactor opts ^ (length p - 1), length_wp = length p \<rparr>) ?ps"
  have d: "diversityScore (calculatePairwiseConnectedness s t g opts)
             = (if t \<in> set (neighbors g s) then 1 else if length ?ps = 0 then 0
                else calculatePathDiversity ?wps)"
    by (simp add: calculatePairwiseConnectedness_def Let_def)
  have c: "confidence (calculatePairwiseConnectedness s t g opts)
             = (if t \<in> set (neighbors g s) then 1 else if length ?ps = 0 then 1
                else calculateConfidence ?wps (calculatePathDiversity ?wps))"
    by (simp add: calculatePairwiseConnectedness_def Let_def)
  note db = calculatePathDiversity_bounds [of ?wps]
  note cb = calculateConfidence_bounds [of "calculatePathDiversity ?wps" ?wps]
  show "0 \<le> diversityScore (calculatePairwiseConnectedness s t g opts)"
    and "diversityScore (calculatePairwiseConnectedness s t g opts) \<le> 1"
    unfolding d using db by simp_all
  show "0 \<le> confidence (calculatePairwiseConnectedness s t g opts)"
    and "confidence (calculatePairwiseConnectedness s t g opts) \<le> 1"
    unfolding c using cb db by simp_all
qed

text \<open>The bounds that the interface \<open>ConnectednessResult\<close> declares.\<close>

definition within_declared_bounds :: "ConnectednessResult \<Rightarrow> bool" where
  "within_declared_bounds r =
     (0 \<le> score r \<and> score r \<le> 1
      \<and> 0 \<le> diversityScore r \<and> diversityScore r \<le> 1
      \<and> 0 \<le> confidence r \<and> confidence r \<le> 1
      \<and> 0 \<le> pathCount r)"

lemma pairwise_within_declared_bounds:
  "0 \<le> decayFactor opts \<Longrightarrow> within_declared_bounds (calculatePairwiseConnectedness s t g opts)"
  unfolding within_declared_bounds_def by (simp add: pairwise_bounds)

lemma foldl_max_bounds:
  fixes a :: real
  shows "lo \<le> a \<Longrightarrow> a \<le> hi \<Longrightarrow> \<forall>x \<in> set xs. lo \<le> x \<and> x \<le> hi \<Longrightarrow>
         lo \<le> foldl max a xs \<and> foldl max a xs \<le> hi"
proof (induction xs arbitrary: a)
  case Nil
  then show ?case by simp
next
  case (Cons x xs)
  have "lo \<le> max a x" "max a x \<le> hi" using Cons.prems by auto
  from Cons.IH [OF this] Cons.prems(3) show ?case by simp
qed

lemma union_combination_bounds:
  assumes R: "\<forall>r \<in> set (r0 # rs). within_declared_bounds r"
  defines "R \<equiv> r0 # rs"
  defines "W \<equiv> foldl (\<lambda>sum r. sum + diversityScore r * confidence r) 0 R"
  defines "T \<equiv> foldl (\<lambda>sum r. sum + confidence r) 0 R"
  shows "0 \<le> foldl max (score r0) (map score rs)"
    and "foldl max (score r0) (map score rs) \<le> 1"
    and "0 \<le> (if T > 0 then W / T else 0)"
    and "(if T > 0 then W / T else 0) \<le> 1"
    and "0 \<le> T / real (length R)"
    and "T / real (length R) \<le> 1"
proof -
  have b: "\<And>r. r \<in> set R \<Longrightarrow> within_declared_bounds r" using R unfolding R_def by blast
  have s0: "0 \<le> score r0" "score r0 \<le> 1"
    using R unfolding within_declared_bounds_def by simp_all
  have srs: "\<forall>x \<in> set (map score rs). 0 \<le> x \<and> x \<le> 1"
    using R unfolding within_declared_bounds_def by auto
  from foldl_max_bounds [OF s0 srs]
  show "0 \<le> foldl max (score r0) (map score rs)" "foldl max (score r0) (map score rs) \<le> 1"
    by simp_all
  have W: "W = sum_list (map (\<lambda>r. diversityScore r * confidence r) R)"
    unfolding W_def by (simp add: foldl_add_sum_list)
  have T: "T = sum_list (map confidence R)"
    unfolding T_def by (simp add: foldl_add_sum_list)
  have W0: "0 \<le> W" unfolding W
    by (rule sum_list_nonneg) (use b in \<open>auto simp: within_declared_bounds_def\<close>)
  have T0: "0 \<le> T" unfolding T
    by (rule sum_list_nonneg) (use b in \<open>auto simp: within_declared_bounds_def\<close>)
  have WT: "W \<le> T" unfolding W T
  proof (rule sum_list_mono)
    fix r assume "r \<in> set R"
    from b [OF this] have "diversityScore r \<le> 1" "0 \<le> confidence r"
      unfolding within_declared_bounds_def by simp_all
    then show "diversityScore r * confidence r \<le> confidence r"
      using mult_right_mono [of "diversityScore r" 1 "confidence r"] by simp
  qed
  have "sum_list (map confidence R) \<le> sum_list (map (\<lambda>r. 1) R)"
  proof (rule sum_list_mono)
    fix r assume "r \<in> set R"
    from b [OF this] show "confidence r \<le> 1" unfolding within_declared_bounds_def by simp
  qed
  then have Tn: "T \<le> real (length R)" unfolding T by (simp add: sum_list_triv)
  have n: "0 < real (length R)" unfolding R_def by simp
  show "0 \<le> (if T > 0 then W / T else 0)" using W0 T0 by simp
  show "(if T > 0 then W / T else 0) \<le> 1" using WT by simp
  show "0 \<le> T / real (length R)" using T0 by simp
  show "T / real (length R) \<le> 1" using Tn n by simp
qed

lemma union_within_declared_bounds:
  assumes "0 \<le> decayFactor opts"
  shows "within_declared_bounds (calculateUnionConnectedness s targets g opts)"
proof -
  let ?R = "filter (\<lambda>r. confidence r \<ge> confidenceThreshold opts)
              (map (\<lambda>target. calculatePairwiseConnectedness s target g opts) targets)"
  have all: "\<forall>r \<in> set ?R. within_declared_bounds r"
    using pairwise_within_declared_bounds [OF assms] by auto
  show ?thesis
  proof (cases ?R)
    case Nil
    then show ?thesis
      by (simp add: calculateUnionConnectedness_def Let_def within_declared_bounds_def)
  next
    case (Cons r0 rs)
    from all Cons have "\<forall>r \<in> set (r0 # rs). within_declared_bounds r" by simp
    note u = union_combination_bounds [OF this]
    show ?thesis
      unfolding calculateUnionConnectedness_def Let_def Cons list.case within_declared_bounds_def
      using u by simp
  qed
qed

text \<open>
  Claim C9. The results of the pairwise and of the union connectedness computation
  satisfy the declared bounds: score, diversity score and confidence lie in \<open>[0,1]\<close>
  and the path count is non-negative. The decay factor is non-negative (its default
  is \<open>1/3\<close>).
\<close>

theorem connectedness_results_within_bounds:
  assumes "0 \<le> decayFactor opts"
  shows "within_declared_bounds (calculatePairwiseConnectedness sourceHER targetHER sponsorGraph opts)
       \<and> within_declared_bounds (calculateUnionConnectedness sourceHER targetSet sponsorGraph opts)"
  using pairwise_within_declared_bounds [OF assms] union_within_declared_bounds [OF assms]
  by blast

section \<open>Adding a path to the graph\<close>

text \<open>
  A graph is extended by a path \<open>v\<^sub>0 \<midarrow> v\<^sub>1 \<midarrow> \<dots> \<midarrow> v\<^sub>k\<close> the way \<open>buildSponsorGraph\<close> would
  add it: for every two consecutive nodes, \<open>v\<^sub>i\<close> is declared a sponsor of \<open>v\<^sub>i\<^sub>+\<^sub>1\<close>.
\<close>

fun add_path :: "sponsor_graph \<Rightarrow> string list \<Rightarrow> sponsor_graph" where
  "add_path g (u # v # rest) = add_path (add_sponsor_edges v g u) (v # rest)"
| "add_path g [u] = g"
| "add_path g [] = g"

lemma neighbors_add_path:
  "set (neighbors g x) \<subseteq> set (neighbors (add_path g ns) x)"
proof (induction g ns rule: add_path.induct)
  case (1 g u v rest)
  have "set (neighbors g x) \<subseteq> set (neighbors (add_sponsor_edges v g u) x)"
    unfolding neighbors_add_sponsor_edges by blast
  with 1 show ?case by simp
qed simp_all

lemma pairwise_score_mono:
  assumes d: "0 \<le> decayFactor opts"
    and sub: "\<forall>u. set (neighbors g u) \<subseteq> set (neighbors g' u)"
  shows "score (calculatePairwiseConnectedness s t g opts)
           \<le> score (calculatePairwiseConnectedness s t g' opts)"
proof -
  let ?S = "set (paths_from g t (maxDepth opts) s [s] 0)"
  let ?S' = "set (paths_from g' t (maxDepth opts) s [s] 0)"
  have "?S \<subseteq> ?S'" using paths_from_mono [OF sub] by blast
  then have "sum (path_weight opts) ?S \<le> sum (path_weight opts) ?S'"
    by (rule sum_mono2 [OF finite_set]) (rule path_weight_nonneg [OF d])
  then have m: "min 1 (sum (path_weight opts) ?S) \<le> min 1 (sum (path_weight opts) ?S')"
    by (rule min.mono [OF order_refl])
  show ?thesis
  proof (cases "t \<in> set (neighbors g s)")
    case True
    with sub have "t \<in> set (neighbors g' s)" by blast
    with True show ?thesis unfolding pairwise_score by simp
  next
    case False
    show ?thesis
    proof (cases "t \<in> set (neighbors g' s)")
      case True
      with False show ?thesis unfolding pairwise_score by simp
    next
      case nd: False
      with False m show ?thesis unfolding pairwise_score by simp
    qed
  qed
qed

text \<open>
  Claim C6. Extending the graph with an additional path between \<open>A\<close> and \<open>B\<close> never
  decreases the pairwise connectedness score. The interior nodes of the added path are
  arbitrary, so in particular they may be new and the path independent of the others.
  The decay factor is non-negative (its default is \<open>1/3\<close>).
\<close>

theorem pairwise_score_monotone_in_added_path:
  assumes "0 \<le> decayFactor opts"
  shows "score (calculatePairwiseConnectedness A B G opts)
           \<le> score (calculatePairwiseConnectedness A B (add_path G (A # interior @ [B])) opts)"
  using assms by (intro pairwise_score_mono) (simp_all add: neighbors_add_path)

section \<open>Two small graphs\<close>

text \<open>
  \<open>a \<midarrow> x \<midarrow> b\<close>, and the same graph with the second path \<open>a \<midarrow> y \<midarrow> b\<close> added.
\<close>

definition one_path_graph :: sponsor_graph where
  "one_path_graph =
     buildSponsorGraph [(''x'', \<lparr> sponsors = [''a''] \<rparr>), (''b'', \<lparr> sponsors = [''x''] \<rparr>)]"

definition two_path_graph :: sponsor_graph where
  "two_path_graph = add_path one_path_graph [''a'', ''y'', ''b'']"

lemma one_path_graph_neighbors:
  "neighbors one_path_graph ''a'' = [''x'']"
  "neighbors one_path_graph ''x'' = [''a'', ''b'']"
  "neighbors one_path_graph ''b'' = [''x'']"
  by (simp_all add: one_path_graph_def buildSponsorGraph_def add_sponsor_edges_def neighbors_def)

lemma two_path_graph_neighbors:
  "neighbors two_path_graph ''a'' = [''x'', ''y'']"
  "neighbors two_path_graph ''x'' = [''a'', ''b'']"
  "neighbors two_path_graph ''y'' = [''a'', ''b'']"
  "neighbors two_path_graph ''b'' = [''x'', ''y'']"
  by (simp_all add: two_path_graph_def one_path_graph_def buildSponsorGraph_def
      add_sponsor_edges_def neighbors_def)

lemma one_path_graph_paths:
  "findWeightedPaths ''a'' ''b'' one_path_graph 6 = [[''a'', ''x'', ''b'']]"
  by (simp add: findWeightedPaths_def dfs_paths_from paths_from.simps one_path_graph_neighbors)

lemma two_path_graph_paths:
  "findWeightedPaths ''a'' ''b'' two_path_graph 6 = [[''a'', ''x'', ''b''], [''a'', ''y'', ''b'']]"
  by (simp add: findWeightedPaths_def dfs_paths_from paths_from.simps two_path_graph_neighbors)

lemma empty_graph_paths: "findWeightedPaths ''a'' ''b'' Map.empty 6 = []"
  by (simp add: findWeightedPaths_def dfs_paths_from paths_from.simps neighbors_def)

lemma one_path_graph_result:
  "calculatePairwiseConnectedness ''a'' ''b'' one_path_graph DEFAULT_OPTIONS
     = \<lparr> score = 1/9, pathCount = 1, shortestPath = 3, diversityScore = 1, confidence = 11/15 \<rparr>"
  by (simp add: calculatePairwiseConnectedness_def one_path_graph_neighbors DEFAULT_OPTIONS_def
      one_path_graph_paths calculatePathDiversity_def calculateConfidence_def Let_def
      numeral_eq_enat)

lemma two_path_graph_result:
  "calculatePairwiseConnectedness ''a'' ''b'' two_path_graph DEFAULT_OPTIONS
     = \<lparr> score = 2/9, pathCount = 2, shortestPath = 3, diversityScore = 1, confidence = 13/15 \<rparr>"
  by (simp add: calculatePairwiseConnectedness_def two_path_graph_neighbors DEFAULT_OPTIONS_def
      two_path_graph_paths calculatePathDiversity_def calculateConfidence_def overlap_def Let_def
      numeral_eq_enat)

lemma empty_graph_result:
  "calculatePairwiseConnectedness ''a'' ''b'' Map.empty DEFAULT_OPTIONS
     = \<lparr> score = 0, pathCount = 0, shortestPath = \<infinity>, diversityScore = 0, confidence = 1 \<rparr>"
  by (simp add: calculatePairwiseConnectedness_def DEFAULT_OPTIONS_def empty_graph_paths
      neighbors_def)

theorem pairwise_score_monotone_in_added_path_witness:
  "0 \<le> decayFactor DEFAULT_OPTIONS
   \<and> score (calculatePairwiseConnectedness ''a'' ''b'' one_path_graph DEFAULT_OPTIONS) = 1/9
   \<and> score (calculatePairwiseConnectedness ''a'' ''b''
              (add_path one_path_graph (''a'' # [''y''] @ [''b''])) DEFAULT_OPTIONS) = 2/9
   \<and> score (calculatePairwiseConnectedness ''a'' ''b'' one_path_graph DEFAULT_OPTIONS)
        \<le> score (calculatePairwiseConnectedness ''a'' ''b''
              (add_path one_path_graph (''a'' # [''y''] @ [''b''])) DEFAULT_OPTIONS)"
proof -
  have d: "0 \<le> decayFactor DEFAULT_OPTIONS" by (simp add: DEFAULT_OPTIONS_def)
  have g: "add_path one_path_graph (''a'' # [''y''] @ [''b'']) = two_path_graph"
    by (simp add: two_path_graph_def)
  from pairwise_score_monotone_in_added_path [OF d, of "''a''" "''b''" one_path_graph "[''y'']"] d
  show ?thesis unfolding g by (simp add: one_path_graph_result two_path_graph_result)
qed

theorem connectedness_results_within_bounds_witness:
  "0 \<le> decayFactor DEFAULT_OPTIONS
   \<and> within_declared_bounds (calculatePairwiseConnectedness ''a'' ''b'' two_path_graph DEFAULT_OPTIONS)
   \<and> within_declared_bounds (calculateUnionConnectedness ''a'' [''b'', ''x''] two_path_graph DEFAULT_OPTIONS)"
proof -
  have d: "0 \<le> decayFactor DEFAULT_OPTIONS" by (simp add: DEFAULT_OPTIONS_def)
  from connectedness_results_within_bounds [OF d, of "''a''" "''b''" two_path_graph "[''b'', ''x'']"] d
  show ?thesis by blast
qed

text \<open>
  Claim C2, as the code has it. When the pairwise computation reports exactly one path
  (the single path that the search found, or the direct edge), the diversity score is
  1; when it reports no path, the diversity score is 0.
\<close>

theorem diversity_of_single_and_missing_path:
  "(pathCount (calculatePairwiseConnectedness A B G opts) = 1
      \<longrightarrow> diversityScore (calculatePairwiseConnectedness A B G opts) = 1)
   \<and> (pathCount (calculatePairwiseConnectedness A B G opts) = 0
      \<longrightarrow> diversityScore (calculatePairwiseConnectedness A B G opts) = 0)"
proof (cases "B \<in> set (neighbors G A)")
  case True
  then show ?thesis by (simp add: calculatePairwiseConnectedness_def)
next
  case False
  show ?thesis
  proof (cases "length (findWeightedPaths A B G (maxDepth opts)) = 0")
    case True
    with False show ?thesis by (simp add: calculatePairwiseConnectedness_def Let_def)
  next
    case ne: False
    with False show ?thesis
      by (simp add: calculatePairwiseConnectedness_def Let_def calculatePathDiversity_def)
  qed
qed

text \<open>
  Between two nodes of the empty graph the search finds no path, and the diversity
  score returned is 0, not 1.
\<close>

theorem diversity_without_path_counterexample:
  "length (findWeightedPaths ''a'' ''b'' Map.empty (maxDepth DEFAULT_OPTIONS)) \<le> 1
   \<and> diversityScore (calculatePairwiseConnectedness ''a'' ''b'' Map.empty DEFAULT_OPTIONS) \<noteq> 1.0
   \<and> diversityScore (calculatePairwiseConnectedness ''a'' ''b'' Map.empty DEFAULT_OPTIONS) = 0"
  by (simp add: empty_graph_result) (simp add: DEFAULT_OPTIONS_def empty_graph_paths)

theorem diversity_of_single_and_missing_path_witness:
  "pathCount (calculatePairwiseConnectedness ''a'' ''b'' one_path_graph DEFAULT_OPTIONS) = 1
   \<and> diversityScore (calculatePairwiseConnectedness ''a'' ''b'' one_path_graph DEFAULT_OPTIONS) = 1
   \<and> pathCount (calculatePairwiseConnectedness ''a'' ''b'' Map.empty DEFAULT_OPTIONS) = 0
   \<and> diversityScore (calculatePairwiseConnectedness ''a'' ''b'' Map.empty DEFAULT_OPTIONS) = 0"
proof -
  have p1: "pathCount (calculatePairwiseConnectedness ''a'' ''b'' one_path_graph DEFAULT_OPTIONS) = 1"
    by (simp add: one_path_graph_result)
  have p0: "pathCount (calculatePairwiseConnectedness ''a'' ''b'' Map.empty DEFAULT_OPTIONS) = 0"
    by (simp add: empty_graph_result)
  from diversity_of_single_and_missing_path [of "''a''" "''b''" one_path_graph DEFAULT_OPTIONS]
    diversity_of_single_and_missing_path [of "''a''" "''b''" Map.empty DEFAULT_OPTIONS] p1 p0
  show ?thesis by blast
qed

section \<open>Cross-branch contracts (unnamed/part_002 and the endpoint in unnamed/part_003)\<close>












section \<open>The contract lifecycle\<close>



















section \<open>A contract between three branches\<close>














end
